theory Spec2Isabelle
  imports Complex_Main
begin

section \<open>The data of dynamic-particle-pool.js\<close>

text \<open>
  A particle is a \<open>THREE.Vector3\<close> created by \<open>createGeometry\<close>. Its identity is the pair of the
  geometry that created it and its index in \<open>geometry.vertices\<close>; geometries are numbered in the
  order of their creation (the counter \<open>nextId\<close> of the state stands for the freshness of
  \<open>new THREE.Geometry\<close>).
\<close>

type_synonym particle = "nat \<times> nat"

type_synonym vec3 = "real \<times> real \<times> real"

text \<open>
  One entry of the array \<open>pools\<close>. The geometry, the material and the mesh of an entry are
  created together and are known by one number, \<open>mesh\<close>. The field \<open>size\<close> of the source is
  \<open>pool_size\<close> here.
\<close>

record pool =
  mesh :: nat
  verticesNeedUpdate :: bool
  available :: "particle list"
  pool_size :: nat

text \<open>
  The variables closed over by \<open>THREE.DynamicParticlePool\<close>: the fields of \<open>opts\<close> after the
  defaults, \<open>pools\<close>, \<open>lastCleanup\<close>, the children of \<open>object3d\<close> (a list of meshes, as the
  test double of the repository keeps them), and the coordinates of every particle.
  \<open>disposed\<close> holds the entries that \<open>cleanUp\<close> spliced out of \<open>pools\<close>: the array
  \<open>available\<close> of such an entry stays reachable from the \<open>free\<close> closures of its particles.
\<close>

record state =
  maximumParticles :: real
  minimumParticles :: nat
  particlesPerGeometry :: nat
  cleanupInterval :: "real option"
  defaultAdjustmentRatio :: real
  offPos :: vec3
  pools :: "pool list"
  lastCleanup :: int
  object3d :: "nat list"
  position :: "particle \<Rightarrow> vec3"
  nextId :: nat
  disposed :: "pool list"

section \<open>createGeometry\<close>

text \<open>
  \<open>while (i--)\<close> runs \<open>particlesPerGeometry\<close> times; each round creates a particle at
  \<open>offPos\<close> and pushes it on \<open>vertices\<close> and on \<open>available\<close>. The mesh is added to
  \<open>object3d\<close> and the new entry is pushed on \<open>pools\<close> with \<open>size = available.length\<close>.
\<close>

definition new_particles :: "nat \<Rightarrow> nat \<Rightarrow> particle list" where
  "new_particles g n = map (\<lambda>i. (g, i)) [0..<n]"

definition createGeometry :: "state \<Rightarrow> state" where
  "createGeometry s =
     (let g = nextId s;
          avail = new_particles g (particlesPerGeometry s)
      in s\<lparr>pools := pools s @
              [\<lparr>mesh = g, verticesNeedUpdate = False, available = avail,
                pool_size = length avail\<rparr>],
            object3d := object3d s @ [g],
            position := (\<lambda>p. if fst p = g \<and> snd p < particlesPerGeometry s
                                then offPos s else position s p),
            nextId := Suc g\<rparr>)"

section \<open>freePoolParticle\<close>

text \<open>
  \<open>freePoolParticle\<close> is a closure over the array \<open>available\<close> of one geometry and reads
  \<open>this\<close>. The values of \<open>this\<close> are: a falsy one (\<open>undefined\<close> when the function is called
  through a copied reference, in strict mode), a value whose property \<open>free\<close> is not a
  function, and a particle of this manager. An object of the caller's own that carries a
  function \<open>free\<close> passes the check of the source as a particle does; it is outside this model.
\<close>

datatype this_value = Undefined | NoFreeFunction | Vertex particle

datatype error = OriginalContextError

definition push_available :: "nat \<Rightarrow> particle \<Rightarrow> pool \<Rightarrow> pool" where
  "push_available g p pl =
     (if mesh pl = g then pl\<lparr>available := available pl @ [p]\<rparr> else pl)"

definition freePoolParticle :: "nat \<Rightarrow> this_value \<Rightarrow> state \<Rightarrow> error + state" where
  "freePoolParticle g this s =
     (case this of
        Undefined \<Rightarrow> Inl OriginalContextError
      | NoFreeFunction \<Rightarrow> Inl OriginalContextError
      | Vertex p \<Rightarrow>
          Inr (s\<lparr>position := (position s)(p := offPos s),
                 pools := map (push_available g p) (pools s),
                 disposed := map (push_available g p) (disposed s)\<rparr>))"

text \<open>\<open>particle.free()\<close>: the property \<open>free\<close> of a particle is the closure of its own geometry.\<close>

definition free :: "particle \<Rightarrow> state \<Rightarrow> error + state" where
  "free p s = freePoolParticle (fst p) (Vertex p) s"

section \<open>getOrCreateParticle\<close>

text \<open>
  \<open>pools.some(callback)\<close> with the variables \<open>count\<close> and \<open>particle\<close> that the callback
  updates: the result is the particle (if one was shifted), the final \<open>count\<close>, and the
  entries of \<open>pools\<close> after the shift.
\<close>

fun some_pool :: "real \<Rightarrow> nat \<Rightarrow> pool list \<Rightarrow> particle option \<times> nat \<times> pool list" where
  "some_pool mx count [] = (None, count, [])"
| "some_pool mx count (pl # pls) =
     (case available pl of
        p # rest \<Rightarrow> (Some p, count, pl\<lparr>available := rest\<rparr> # pls)
      | [] \<Rightarrow>
          (let count' = count + pool_size pl
           in if real count' > mx then (None, count', pl # pls)
              else (case some_pool mx count' pls of
                      (r, c, pls') \<Rightarrow> (r, c, pl # pls'))))"

text \<open>
  The function calls itself after \<open>createGeometry\<close>; nothing in its text bounds the number of
  calls, so the model is a partial function and \<open>None\<close> stands for a call that does not return.
\<close>

partial_function (option) getOrCreateParticle :: "state \<Rightarrow> (particle option \<times> state) option" where
  "getOrCreateParticle s =
     (case some_pool (maximumParticles s) 0 (pools s) of
        (particle, count, pls) \<Rightarrow>
          (if particle = None \<and> real count < maximumParticles s
           then getOrCreateParticle (createGeometry (s\<lparr>pools := pls\<rparr>))
           else Some (particle, s\<lparr>pools := pls\<rparr>)))"

definition getParticle :: "state \<Rightarrow> (particle option \<times> state) option" where
  "getParticle s = getOrCreateParticle s"

section \<open>cleanUp\<close>

text \<open>The \<open>forEach\<close> that computes \<open>firstIdlePoolIndex\<close>, from index \<open>i\<close> on.\<close>

fun firstIdle_from :: "nat \<Rightarrow> nat \<Rightarrow> pool list \<Rightarrow> nat" where
  "firstIdle_from i acc [] = acc"
| "firstIdle_from i acc (pl # pls) =
     firstIdle_from (Suc i) (if length (available pl) \<noteq> pool_size pl then Suc i else acc) pls"

definition firstIdlePoolIndex :: "pool list \<Rightarrow> nat" where
  "firstIdlePoolIndex pls = firstIdle_from 0 0 pls"

text \<open>\<open>xs.splice(start, n)\<close>: the removed elements and what is left of \<open>xs\<close>.\<close>

definition splice_js :: "nat \<Rightarrow> nat \<Rightarrow> 'a list \<Rightarrow> 'a list \<times> 'a list" where
  "splice_js start n xs = (take n (drop start xs), take start xs @ drop (start + n) xs)"

text \<open>
  \<open>object3d.remove(mesh)\<close> takes the mesh out of the children of \<open>object3d\<close> (the first
  occurrence, by \<open>indexOf\<close> and \<open>splice\<close>). \<open>pool.available.length = 0\<close> empties the array that
  the \<open>free\<close> closures of the entry share.
\<close>

definition dispose_pool :: "pool \<Rightarrow> pool" where
  "dispose_pool pl = pl\<lparr>available := []\<rparr>"

definition cleanUp :: "state \<Rightarrow> state" where
  "cleanUp s =
     (let firstIdle = firstIdlePoolIndex (pools s);
          idlePools = int (length (pools s)) - int firstIdle
      in if idlePools > 1
         then (case splice_js (firstIdle + 1) (nat (idlePools - 1)) (pools s) of
                 (removedPools, kept) \<Rightarrow>
                   s\<lparr>pools := kept,
                     object3d := fold (\<lambda>pl items. remove1 (mesh pl) items) removedPools (object3d s),
                     disposed := disposed s @ map dispose_pool removedPools\<rparr>)
         else s)"

section \<open>increasePool, decreasePool, update\<close>

text \<open>
  The numbers of the source are IEEE 754 doubles: a product or a quotient is the exact one
  rounded to the nearest double, ties to the even significand. \<open>binary64\<close> is that rounding
  on the real numbers: 53 bits of significand, with the fixed spacing of the subnormal numbers
  below \<open>2 ^ - 1022\<close>. There is no \<open>Infinity\<close> and no \<open>NaN\<close> among the real numbers; a
  result of magnitude \<open>2 ^ 1024\<close> or more is outside the model. The literal \<open>1.1\<close> of the
  source is \<open>binary64 1.1\<close>.
\<close>

definition round_half_even :: "real \<Rightarrow> int" where
  "round_half_even y =
     (let f = \<lfloor>y\<rfloor>
      in if y - of_int f < 1 / 2 then f
         else if y - of_int f > 1 / 2 then f + 1
         else if even f then f else f + 1)"

definition binary64 :: "real \<Rightarrow> real" where
  "binary64 x =
     (if x = 0 then 0
      else (let e = max \<lfloor>log 2 \<bar>x\<bar>\<rfloor> (- 1022)
            in of_int (round_half_even (x * 2 powr (52 - of_int e))) * 2 powr (of_int e - 52)))"

definition js_times :: "real \<Rightarrow> real \<Rightarrow> real" where
  "js_times x y = binary64 (x * y)"

definition js_divide :: "real \<Rightarrow> real \<Rightarrow> real" where
  "js_divide x y = binary64 (x / y)"

text \<open>
  An argument that was left out is \<open>None\<close>; \<open>truthy\<close> is the test of \<open>if (x)\<close> and of
  \<open>x || d\<close> on a number. \<open>maxValue\<close> is a product of whole numbers, which is exact below
  \<open>2 ^ 53\<close>.
\<close>

definition truthy :: "real option \<Rightarrow> bool" where
  "truthy x = (case x of None \<Rightarrow> False | Some v \<Rightarrow> v \<noteq> 0)"

definition or_default :: "real option \<Rightarrow> real \<Rightarrow> real" where
  "or_default x d = (if truthy x then the x else d)"

definition increasePool :: "real option \<Rightarrow> real option \<Rightarrow> state \<Rightarrow> state" where
  "increasePool ratio absoluteCount s =
     (if truthy absoluteCount then s\<lparr>maximumParticles := the absoluteCount\<rparr>
      else
        (let ratio' = or_default ratio (defaultAdjustmentRatio s);
             maxValue = real ((length (pools s) + 1) * particlesPerGeometry s)
         in s\<lparr>maximumParticles := min (js_times (maximumParticles s) ratio') maxValue\<rparr>))"

definition decreasePool :: "real option \<Rightarrow> real option \<Rightarrow> state \<Rightarrow> state" where
  "decreasePool ratio absoluteCount s =
     (if truthy absoluteCount then s\<lparr>maximumParticles := the absoluteCount\<rparr>
      else
        (let ratio' = or_default ratio (defaultAdjustmentRatio s)
         in s\<lparr>maximumParticles :=
                max (max (js_divide (maximumParticles s) ratio') (real (particlesPerGeometry s)))
                    (real (minimumParticles s))\<rparr>))"

text \<open>
  \<open>update\<close> reads the clock twice: \<open>now\<close> in the test and \<open>now'\<close> for the new value of
  \<open>lastCleanup\<close>. A \<open>cleanupInterval\<close> of \<open>None\<close> is \<open>Infinity\<close>.
\<close>

definition interval_elapsed :: "int \<Rightarrow> real option \<Rightarrow> bool" where
  "interval_elapsed d i = (case i of None \<Rightarrow> False | Some ms \<Rightarrow> real_of_int d > ms)"

definition mark_pools :: "state \<Rightarrow> state" where
  "mark_pools s = s\<lparr>pools := map (\<lambda>pl. pl\<lparr>verticesNeedUpdate := True\<rparr>) (pools s)\<rparr>"

definition update :: "int \<Rightarrow> int \<Rightarrow> state \<Rightarrow> state" where
  "update now now' s =
     (let s1 = mark_pools s
      in if interval_elapsed (now - lastCleanup s) (cleanupInterval s)
         then (cleanUp s1)\<lparr>lastCleanup := now'\<rparr>
         else s1)"

section \<open>The constructor\<close>

text \<open>
  The options of the caller; a field that was left out is \<open>None\<close>. Every option but
  \<open>minimumParticles\<close> is replaced by its default when it is falsy; \<open>minimumParticles\<close> is kept
  whenever it is a number. \<open>minimumParticles\<close> and \<open>particlesPerGeometry\<close> are natural numbers
  here: a loop \<open>while (i--)\<close> of the source ends only when it starts at one.
  The constructor reads the clock once, for \<open>lastCleanup\<close>.
\<close>

record options =
  opt_maximumParticles :: "real option"
  opt_minimumParticles :: "nat option"
  opt_particlesPerGeometry :: "nat option"
  opt_cleanupInterval :: "real option option"
  opt_defaultAdjustmentRatio :: "real option"
  opt_offScreenPosition :: "vec3 option"

definition nat_or_default :: "nat option \<Rightarrow> nat \<Rightarrow> nat" where
  "nat_or_default x d = (case x of None \<Rightarrow> d | Some v \<Rightarrow> if v = 0 then d else v)"

definition interval_or_default :: "real option option \<Rightarrow> real option" where
  "interval_or_default x =
     (case x of None \<Rightarrow> Some 30000
      | Some None \<Rightarrow> None
      | Some (Some v) \<Rightarrow> if v = 0 then Some 30000 else Some v)"

primrec create_times :: "nat \<Rightarrow> state \<Rightarrow> state" where
  "create_times 0 s = s"
| "create_times (Suc n) s = create_times n (createGeometry s)"

definition DynamicParticlePool :: "int \<Rightarrow> options \<Rightarrow> state" where
  "DynamicParticlePool now opts =
     (let ppg = nat_or_default (opt_particlesPerGeometry opts) 1500;
          minp = (case opt_minimumParticles opts of None \<Rightarrow> 3000 | Some m \<Rightarrow> m);
          s0 = \<lparr>maximumParticles = or_default (opt_maximumParticles opts) 100000,
                minimumParticles = minp,
                particlesPerGeometry = ppg,
                cleanupInterval = interval_or_default (opt_cleanupInterval opts),
                defaultAdjustmentRatio =
                  or_default (opt_defaultAdjustmentRatio opts) (binary64 1.1),
                offPos = (case opt_offScreenPosition opts of
                            None \<Rightarrow> (9999999, 9999999, 9999999) | Some v \<Rightarrow> v),
                pools = [],
                lastCleanup = now,
                object3d = [],
                position = (\<lambda>p. (0, 0, 0)),
                nextId = 0,
                disposed = []\<rparr>
      in create_times (nat \<lceil>real minp / real ppg\<rceil>) s0)"

section \<open>Sequences of calls\<close>

datatype call =
    GetParticle
  | Free particle
  | Update int int
  | IncreasePool "real option" "real option"
  | DecreasePool "real option" "real option"

datatype event = Got "particle option" | Freed particle

text \<open>
  The calls are made one after the other; the result is the list of what \<open>getParticle\<close>
  returned and of what was freed, in order, and the last state. \<open>None\<close>: some call did not
  return, or threw.
\<close>

fun run :: "call list \<Rightarrow> state \<Rightarrow> (event list \<times> state) option" where
  "run [] s = Some ([], s)"
| "run (GetParticle # cs) s =
     (case getParticle s of
        None \<Rightarrow> None
      | Some (r, s') \<Rightarrow>
          (case run cs s' of None \<Rightarrow> None | Some (es, s'') \<Rightarrow> Some (Got r # es, s'')))"
| "run (Free p # cs) s =
     (case free p s of
        Inl e \<Rightarrow> None
      | Inr s' \<Rightarrow>
          (case run cs s' of None \<Rightarrow> None | Some (es, s'') \<Rightarrow> Some (Freed p # es, s'')))"
| "run (Update now now' # cs) s = run cs (update now now' s)"
| "run (IncreasePool r a # cs) s = run cs (increasePool r a s)"
| "run (DecreasePool r a # cs) s = run cs (decreasePool r a s)"

definition results :: "call list \<Rightarrow> state \<Rightarrow> event list option" where
  "results cs s = map_option fst (run cs s)"

definition final_state :: "call list \<Rightarrow> state \<Rightarrow> state option" where
  "final_state cs s = map_option snd (run cs s)"

section \<open>Notions used in the statements\<close>

text \<open>Every particle that waits in the array \<open>available\<close> of some entry of \<open>pools\<close>.\<close>

definition queued :: "state \<Rightarrow> particle list" where
  "queued s = concat (map available (pools s))"

text \<open>
  Two readings of a list of events, both with the particles in use so far (those got and not
  freed since). \<open>unique_live\<close>: no \<open>getParticle\<close> returned a particle that was in use.
  \<open>frees_in_use\<close>: every \<open>free\<close> was called on a particle that was in use.
\<close>

fun unique_live :: "particle list \<Rightarrow> event list \<Rightarrow> bool" where
  "unique_live live [] = True"
| "unique_live live (Got None # es) = unique_live live es"
| "unique_live live (Got (Some p) # es) = (p \<notin> set live \<and> unique_live (p # live) es)"
| "unique_live live (Freed p # es) = unique_live (removeAll p live) es"

fun frees_in_use :: "particle list \<Rightarrow> event list \<Rightarrow> bool" where
  "frees_in_use live [] = True"
| "frees_in_use live (Got None # es) = frees_in_use live es"
| "frees_in_use live (Got (Some p) # es) = frees_in_use (p # live) es"
| "frees_in_use live (Freed p # es) = (p \<in> set live \<and> frees_in_use (removeAll p live) es)"

text \<open>
  What every state has that the constructor and the calls of \<open>run\<close> produce, as long as
  \<open>free\<close> is called on particles in use only: the meshes of \<open>pools\<close> are different and older
  than \<open>nextId\<close>, no particle waits twice, and no particle in use waits.
\<close>

definition pool_inv :: "particle list \<Rightarrow> state \<Rightarrow> bool" where
  "pool_inv live s \<longleftrightarrow>
     0 < particlesPerGeometry s \<and>
     distinct (map mesh (pools s)) \<and>
     (\<forall>pl\<in>set (pools s). mesh pl < nextId s) \<and>
     distinct (queued s) \<and>
     set (queued s) \<inter> set live = {} \<and>
     (\<forall>p\<in>set (queued s) \<union> set live. fst p < nextId s)"

section \<open>Concrete pools\<close>

text \<open>The options of the tests of the repository: three numbers and \<open>cleanupInterval: Infinity\<close>.\<close>

definition test_options :: "real \<Rightarrow> nat \<Rightarrow> nat \<Rightarrow> options" where
  "test_options mx mn ppg =
     \<lparr>opt_maximumParticles = Some mx, opt_minimumParticles = Some mn,
      opt_particlesPerGeometry = Some ppg, opt_cleanupInterval = Some None,
      opt_defaultAdjustmentRatio = None, opt_offScreenPosition = None\<rparr>"

text \<open>The same with a finite \<open>cleanupInterval\<close>.\<close>

definition interval_options :: "real \<Rightarrow> nat \<Rightarrow> nat \<Rightarrow> real \<Rightarrow> options" where
  "interval_options mx mn ppg ms = (test_options mx mn ppg)\<lparr>opt_cleanupInterval := Some (Some ms)\<rparr>"

text \<open>
  A state given by its limit and, for every entry of \<open>pools\<close> in order, the waiting particles
  and the size; the entries are numbered from 0.
\<close>

definition example_state :: "real \<Rightarrow> (particle list \<times> nat) list \<Rightarrow> state" where
  "example_state mx qs =
     \<lparr>maximumParticles = mx, minimumParticles = 0, particlesPerGeometry = 5,
      cleanupInterval = Some 10, defaultAdjustmentRatio = binary64 1.1,
      offPos = (9999999, 9999999, 9999999),
      pools = map (\<lambda>(i, q, n). \<lparr>mesh = i, verticesNeedUpdate = False, available = q,
                                  pool_size = n\<rparr>) (enumerate 0 qs),
      lastCleanup = 0, object3d = [0..<length qs], position = (\<lambda>p. (0, 0, 0)),
      nextId = length qs, disposed = []\<rparr>"

section \<open>The rounding of products and quotients\<close>

text \<open>
  \<open>binary64\<close> keeps the sign, and between two powers of two it rounds to a multiple of the
  spacing of the doubles there.
\<close>

lemma round_half_even_nonpos: "y \<le> 0 \<Longrightarrow> round_half_even y \<le> 0"
proof -
  assume a: "y \<le> 0"
  show ?thesis
  proof (cases "y = 0")
    case True
    then show ?thesis by (simp add: round_half_even_def)
  next
    case False
    with a have "y < 0" by simp
    then have "\<lfloor>y\<rfloor> \<le> - 1" by (simp add: floor_le_iff)
    then show ?thesis by (auto simp: round_half_even_def Let_def)
  qed
qed

lemma binary64_nonpos: "x \<le> 0 \<Longrightarrow> binary64 x \<le> 0"
proof -
  assume a: "x \<le> 0"
  show ?thesis
  proof (cases "x = 0")
    case True
    then show ?thesis by (simp add: binary64_def)
  next
    case False
    define e where "e = max \<lfloor>log 2 \<bar>x\<bar>\<rfloor> (- 1022)"
    have "x * 2 powr (52 - of_int e) \<le> 0" using a by (simp add: mult_nonpos_nonneg)
    then have "round_half_even (x * 2 powr (52 - of_int e)) \<le> 0" by (rule round_half_even_nonpos)
    then have "of_int (round_half_even (x * 2 powr (52 - of_int e))) * 2 powr (of_int e - 52) \<le> (0::real)"
      by (simp add: mult_nonpos_nonneg)
    with False show ?thesis by (simp add: binary64_def e_def Let_def)
  qed
qed

lemma binary64_normal:
  assumes "2 ^ n \<le> \<bar>x\<bar>" and "\<bar>x\<bar> < 2 ^ Suc n"
  shows "binary64 x = of_int (round_half_even (x * 2 ^ 52 / 2 ^ n)) * 2 ^ n / 2 ^ 52"
proof -
  have "(0::real) < 2 ^ n" by simp
  then have pos: "0 < \<bar>x\<bar>" using assms(1) by (rule less_le_trans)
  then have nz: "x \<noteq> 0" by simp
  have "(2::real) powr real (Suc n) = 2 ^ Suc n" by (rule powr_realpow) simp
  then have up: "(2::real) powr (real n + 1) = 2 ^ Suc n" by (simp add: add.commute)
  have lo: "(2::real) powr real n = 2 ^ n" by (rule powr_realpow) simp
  have "2 powr real_of_int (int n) \<le> \<bar>x\<bar> \<and> \<bar>x\<bar> < 2 powr real_of_int (int n + 1)"
    using assms by (simp only: of_int_of_nat_eq of_int_add of_int_1 up lo)
  then have fl: "\<lfloor>log 2 \<bar>x\<bar>\<rfloor> = int n"
    using floor_log_eq_powr_iff [of "\<bar>x\<bar>" 2 "int n"] pos by simp
  have e: "max \<lfloor>log 2 \<bar>x\<bar>\<rfloor> (- 1022) = int n" by (simp add: fl)
  have p1: "2 powr (52 - real_of_int (int n)) = 2 ^ 52 / (2::real) ^ n"
    by (simp add: powr_diff powr_realpow)
  have p2: "2 powr (real_of_int (int n) - 52) = 2 ^ n / (2::real) ^ 52"
    by (simp add: powr_diff powr_realpow)
  have "binary64 x = of_int (round_half_even (x * 2 powr (52 - real_of_int (int n)))) *
      2 powr (real_of_int (int n) - 52)"
    using nz by (simp only: binary64_def Let_def e if_False)
  then show ?thesis by (simp only: p1 p2 times_divide_eq_right)
qed

lemma binary64_ratio_literal: "binary64 1.1 = 2476979795053773 / 2251799813685248"
  by (subst binary64_normal [of 0]) (simp_all add: round_half_even_def Let_def)

text \<open>Two values of the source: \<open>50 * 1.1\<close> is \<open>55.00000000000001\<close> and \<open>33 / 1.1\<close> is
  \<open>29.999999999999996\<close>.\<close>

lemma js_times_example:
  "js_times 50 (binary64 1.1) = 7740561859543041 / 140737488355328"
  unfolding js_times_def binary64_ratio_literal
  by (subst binary64_normal [of 5]) (simp_all add: round_half_even_def Let_def)

lemma js_divide_example:
  "js_divide 33 (binary64 1.1) = 8444249301319679 / 281474976710656"
  unfolding js_divide_def binary64_ratio_literal
  by (subst binary64_normal [of 4]) (simp_all add: round_half_even_def Let_def)

lemma decreasePool_example:
  "maximumParticles (decreasePool None None (example_state 33 [([], 5)]))
     = 8444249301319679 / 281474976710656"
  using js_divide_example
  by (simp add: decreasePool_def or_default_def truthy_def example_state_def Let_def)

section \<open>The scan of getOrCreateParticle\<close>

lemma some_pool_None_pools:
  "some_pool mx c pls = (None, c', pls') \<Longrightarrow> pls' = pls"
proof (induction pls arbitrary: c c' pls')
  case Nil
  then show ?case by simp
next
  case (Cons pl pls)
  then show ?case
    by (auto split: list.splits if_splits prod.splits simp: Let_def)
qed

lemma some_pool_None_count:
  "some_pool mx c pls = (None, c', pls') \<Longrightarrow>
     real c' > mx \<or> (c' = c + sum_list (map pool_size pls) \<and> (\<forall>pl\<in>set pls. available pl = []))"
proof (induction pls arbitrary: c c' pls')
  case Nil
  then show ?case by simp
next
  case (Cons pl pls)
  then show ?case
    by (fastforce split: list.splits if_splits prod.splits simp: Let_def)
qed

lemma some_pool_found:
  "\<forall>pl\<in>set pre. available pl = [] \<Longrightarrow> real (c + sum_list (map pool_size pre)) \<le> mx \<Longrightarrow>
   available pl = p # rest \<Longrightarrow>
   some_pool mx c (pre @ pl # post) =
     (Some p, c + sum_list (map pool_size pre), pre @ pl\<lparr>available := rest\<rparr> # post)"
proof (induction pre arbitrary: c)
  case Nil
  then show ?case by simp
next
  case (Cons a pre)
  have "real (c + pool_size a) \<le> mx" using Cons.prems(2) by simp
  moreover have "real (c + pool_size a + sum_list (map pool_size pre)) \<le> mx"
    using Cons.prems(2) by (simp add: add.assoc)
  ultimately show ?case using Cons.IH [of "c + pool_size a"] Cons.prems
    by (simp add: add.assoc)
qed

lemma some_pool_stops:
  "pre \<noteq> [] \<Longrightarrow> \<forall>pl\<in>set pre. available pl = [] \<Longrightarrow>
   real (c + sum_list (map pool_size pre)) > mx \<Longrightarrow>
   \<exists>c'. some_pool mx c (pre @ post) = (None, c', pre @ post) \<and> real c' > mx"
proof (induction pre arbitrary: c)
  case Nil
  then show ?case by simp
next
  case (Cons a pre)
  show ?case
  proof (cases "real (c + pool_size a) > mx")
    case True
    then show ?thesis using Cons.prems by simp
  next
    case False
    then have ne: "pre \<noteq> []" using Cons.prems(3) by auto
    have "real (c + pool_size a + sum_list (map pool_size pre)) > mx"
      using Cons.prems(3) by (simp add: add.assoc)
    from Cons.IH [OF ne _ this] Cons.prems(2) False show ?thesis by auto
  qed
qed

lemma some_pool_exhausted:
  "\<forall>pl\<in>set pls. available pl = [] \<Longrightarrow>
   \<exists>c'. some_pool mx c pls = (None, c', pls) \<and>
        (real c' > mx \<or> c' = c + sum_list (map pool_size pls))"
proof (induction pls arbitrary: c)
  case Nil
  then show ?case by simp
next
  case (Cons a pls)
  show ?case
  proof (cases "real (c + pool_size a) > mx")
    case True
    then show ?thesis using Cons.prems by simp
  next
    case False
    from Cons.IH [of "c + pool_size a"] Cons.prems False show ?thesis
      by (auto simp: add.assoc)
  qed
qed

text \<open>The three ways through \<open>getOrCreateParticle\<close>, as conditional equations.\<close>

lemma getOrCreateParticle_found:
  "some_pool (maximumParticles s) 0 (pools s) = (Some p, c, pls) \<Longrightarrow>
   getOrCreateParticle s = Some (Some p, s\<lparr>pools := pls\<rparr>)"
  by (subst getOrCreateParticle.simps) simp

lemma getOrCreateParticle_full:
  "some_pool (maximumParticles s) 0 (pools s) = (None, c, pls) \<Longrightarrow>
   \<not> real c < maximumParticles s \<Longrightarrow>
   getOrCreateParticle s = Some (None, s\<lparr>pools := pls\<rparr>)"
  by (subst getOrCreateParticle.simps) simp

lemma getOrCreateParticle_create:
  "some_pool (maximumParticles s) 0 (pools s) = (None, c, pls) \<Longrightarrow>
   real c < maximumParticles s \<Longrightarrow>
   getOrCreateParticle s = getOrCreateParticle (createGeometry (s\<lparr>pools := pls\<rparr>))"
  by (subst getOrCreateParticle.simps) simp

lemma getOrCreateParticle_serves:
  assumes "pools s = pre @ pl # post"
    and "\<forall>q\<in>set pre. available q = []"
    and "available pl = p # rest"
    and "real (sum_list (map pool_size pre)) \<le> maximumParticles s"
  shows "getOrCreateParticle s = Some (Some p, s\<lparr>pools := pre @ pl\<lparr>available := rest\<rparr> # post\<rparr>)"
proof -
  from assms(4) have "real (0 + sum_list (map pool_size pre)) \<le> maximumParticles s" by simp
  from some_pool_found [OF assms(2) this assms(3), of post] assms(1)
  have "some_pool (maximumParticles s) 0 (pools s) =
          (Some p, 0 + sum_list (map pool_size pre), pre @ pl\<lparr>available := rest\<rparr> # post)"
    by simp
  then show ?thesis by (rule getOrCreateParticle_found)
qed

lemma push_available_other:
  "\<forall>q\<in>set pls. mesh q \<noteq> g \<Longrightarrow> map (push_available g p) pls = pls"
  by (induction pls) (auto simp: push_available_def)

lemmas example_defs = example_state_def enumerate_eq_zip upt_rec

lemmas run_defs = results_def final_state_def getParticle_def free_def freePoolParticle_def
  push_available_def increasePool_def decreasePool_def
  getOrCreateParticle_found getOrCreateParticle_create getOrCreateParticle_full

lemmas construct_defs = DynamicParticlePool_def test_options_def or_default_def truthy_def
  nat_or_default_def interval_or_default_def createGeometry_def new_particles_def Let_def upt_rec

section \<open>The limit\<close>

text \<open>
  C3. In a state where the array \<open>available\<close> of every entry of \<open>pools\<close> is empty and the sizes
  of the entries sum to \<open>maximumParticles\<close> or more, \<open>getOrCreateParticle\<close> returns \<open>null\<close> and
  leaves the state as it is: no entry is added to \<open>pools\<close>.
\<close>

theorem exhausted_returns_null:
  assumes "\<forall>pl\<in>set (pools s). available pl = []"
    and "real (sum_list (map pool_size (pools s))) \<ge> maximumParticles s"
  shows "getOrCreateParticle s = Some (None, s)"
proof -
  from some_pool_exhausted [OF assms(1), of "maximumParticles s" 0]
  obtain c' where sp: "some_pool (maximumParticles s) 0 (pools s) = (None, c', pools s)"
    and c': "real c' > maximumParticles s \<or> c' = 0 + sum_list (map pool_size (pools s))"
    by blast
  from c' assms(2) have "\<not> real c' < maximumParticles s" by auto
  from getOrCreateParticle_full [OF sp this] show ?thesis by simp
qed

theorem exhausted_returns_null_witness:
  "map available (pools (example_state 10 [([], 5), ([], 5)])) = [[], []] \<and>
   real (sum_list (map pool_size (pools (example_state 10 [([], 5), ([], 5)]))))
     \<ge> maximumParticles (example_state 10 [([], 5), ([], 5)]) \<and>
   getOrCreateParticle (example_state 10 [([], 5), ([], 5)])
     = Some (None, example_state 10 [([], 5), ([], 5)]) \<and>
   length (pools (example_state 10 [([], 5), ([], 5)])) = 2"
proof -
  have h1: "\<forall>pl\<in>set (pools (example_state 10 [([], 5), ([], 5)])). available pl = []"
    by (simp add: example_defs)
  have h2: "real (sum_list (map pool_size (pools (example_state 10 [([], 5), ([], 5)]))))
     \<ge> maximumParticles (example_state 10 [([], 5), ([], 5)])"
    by (simp add: example_defs)
  have h3: "map available (pools (example_state 10 [([], 5), ([], 5)])) = [[], []]"
    by (simp add: example_defs)
  have h4: "length (pools (example_state 10 [([], 5), ([], 5)])) = 2"
    by (simp add: example_defs)
  from exhausted_returns_null [OF h1 h2] h2 h3 h4 show ?thesis by blast
qed

section \<open>Which particle is served\<close>

text \<open>
  C1 (as the code has it). Let some entry of \<open>pools\<close> have a waiting particle, let \<open>pl\<close> be
  the first such entry, and let the sizes of the entries before it sum to at most
  \<open>maximumParticles\<close>. Then \<open>getOrCreateParticle\<close> returns the particle at the front of
  \<open>available\<close> of \<open>pl\<close> and removes it there; the entries after \<open>pl\<close> are not touched. If no
  particle waits twice, the returned particle waits nowhere afterwards.
\<close>

theorem earliest_available_is_served:
  assumes "pools s = pre @ pl # post"
    and "\<forall>q\<in>set pre. available q = []"
    and "available pl = p # rest"
    and "real (sum_list (map pool_size pre)) \<le> maximumParticles s"
  shows "getOrCreateParticle s = Some (Some p, s\<lparr>pools := pre @ pl\<lparr>available := rest\<rparr> # post\<rparr>) \<and>
         (distinct (queued s) \<longrightarrow>
            p \<notin> set (queued (s\<lparr>pools := pre @ pl\<lparr>available := rest\<rparr> # post\<rparr>)))"
proof
  from getOrCreateParticle_serves [OF assms]
  show "getOrCreateParticle s = Some (Some p, s\<lparr>pools := pre @ pl\<lparr>available := rest\<rparr> # post\<rparr>)" .
next
  have pre: "concat (map available pre) = []" using assms(2) by (induction pre) auto
  have "queued s = p # queued (s\<lparr>pools := pre @ pl\<lparr>available := rest\<rparr> # post\<rparr>)"
    by (simp add: queued_def assms(1,3) pre)
  then show "distinct (queued s) \<longrightarrow>
            p \<notin> set (queued (s\<lparr>pools := pre @ pl\<lparr>available := rest\<rparr> # post\<rparr>))"
    by simp
qed

theorem earliest_available_is_served_witness:
  "pools (example_state 10 [([], 5), ([(1, 3), (1, 0)], 5), ([(2, 0)], 5)]) =
     [\<lparr>mesh = 0, verticesNeedUpdate = False, available = [], pool_size = 5\<rparr>] @
     \<lparr>mesh = 1, verticesNeedUpdate = False, available = [(1, 3), (1, 0)], pool_size = 5\<rparr> #
     [\<lparr>mesh = 2, verticesNeedUpdate = False, available = [(2, 0)], pool_size = 5\<rparr>] \<and>
   real (sum_list (map pool_size
     [\<lparr>mesh = 0, verticesNeedUpdate = False, available = [], pool_size = 5\<rparr>]))
     \<le> maximumParticles (example_state 10 [([], 5), ([(1, 3), (1, 0)], 5), ([(2, 0)], 5)]) \<and>
   distinct (queued (example_state 10 [([], 5), ([(1, 3), (1, 0)], 5), ([(2, 0)], 5)])) \<and>
   map_option fst (getOrCreateParticle (example_state 10 [([], 5), ([(1, 3), (1, 0)], 5), ([(2, 0)], 5)]))
     = Some (Some (1, 3)) \<and>
   map_option (map available \<circ> pools \<circ> snd)
     (getOrCreateParticle (example_state 10 [([], 5), ([(1, 3), (1, 0)], 5), ([(2, 0)], 5)]))
     = Some [[], [(1, 0)], [(2, 0)]]"
proof -
  let ?s = "example_state 10 [([], 5), ([(1, 3), (1, 0)], 5), ([(2, 0)], 5)]"
  let ?a = "\<lparr>mesh = 0, verticesNeedUpdate = False, available = [], pool_size = 5\<rparr>"
  let ?b = "\<lparr>mesh = 1, verticesNeedUpdate = False, available = [(1, 3), (1, 0)], pool_size = 5\<rparr>"
  let ?c = "\<lparr>mesh = 2, verticesNeedUpdate = False, available = [(2, 0)], pool_size = 5\<rparr>"
  have h1: "pools ?s = [?a] @ ?b # [?c]" by (simp add: example_defs)
  have h2: "\<forall>q\<in>set [?a]. available q = []" by simp
  have h3: "available ?b = (1, 3) # [(1, 0)]" by simp
  have h4: "real (sum_list (map pool_size [?a])) \<le> maximumParticles ?s"
    by (simp add: example_defs)
  have h5: "distinct (queued ?s)" by (simp add: example_defs queued_def)
  from earliest_available_is_served [OF h1 h2 h3 h4] h1 h4 h5 show ?thesis by simp
qed

text \<open>
  Without the bound on the sizes the claim fails: after three particles were taken from
  geometries of two and the limit was set to 1, \<open>getParticle\<close> returns \<open>null\<close> while \<open>(1, 1)\<close>
  waits in the second entry. Without the condition on waiting twice it fails too: a particle
  freed twice is returned and still waits.
\<close>

theorem earliest_available_counterexample:
  "results [GetParticle, GetParticle, GetParticle, DecreasePool None (Some 1), GetParticle]
     (DynamicParticlePool 0 (test_options 10 0 2))
     = Some [Got (Some (0, 0)), Got (Some (0, 1)), Got (Some (1, 0)), Got None] \<and>
   map_option (map available \<circ> pools)
     (final_state [GetParticle, GetParticle, GetParticle, DecreasePool None (Some 1)]
        (DynamicParticlePool 0 (test_options 10 0 2)))
     = Some [[], [(1, 1)]] \<and>
   results [GetParticle, Free (0, 0), Free (0, 0), GetParticle]
     (DynamicParticlePool 0 (test_options 10 0 1))
     = Some [Got (Some (0, 0)), Freed (0, 0), Freed (0, 0), Got (Some (0, 0))] \<and>
   map_option (map available \<circ> pools)
     (final_state [GetParticle, Free (0, 0), Free (0, 0), GetParticle]
        (DynamicParticlePool 0 (test_options 10 0 1)))
     = Some [[(0, 0)]]"
  by (simp add: run_defs construct_defs)

section \<open>The scan stops at the limit\<close>

text \<open>
  C10. When the entries at the front of \<open>pools\<close> are exhausted and their sizes sum to more than
  \<open>maximumParticles\<close>, the scan stops among them and \<open>getOrCreateParticle\<close> returns \<open>null\<close>
  with the state unchanged, whatever waits in the entries behind them. Such a state, with a
  particle waiting, is reached from the constructor by calls of the interface.
\<close>

theorem scan_stops_before_available:
  "(pools s = pre @ post \<and> pre \<noteq> [] \<and> (\<forall>q\<in>set pre. available q = []) \<and>
      real (sum_list (map pool_size pre)) > maximumParticles s
      \<longrightarrow> getOrCreateParticle s = Some (None, s)) \<and>
   (\<exists>cs opts s0. final_state cs (DynamicParticlePool 0 opts) = Some s0 \<and>
      (\<exists>pl\<in>set (pools s0). available pl \<noteq> []) \<and>
      getOrCreateParticle s0 = Some (None, s0))"
proof (intro conjI impI)
  assume a: "pools s = pre @ post \<and> pre \<noteq> [] \<and> (\<forall>q\<in>set pre. available q = []) \<and>
      real (sum_list (map pool_size pre)) > maximumParticles s"
  then have "real (0 + sum_list (map pool_size pre)) > maximumParticles s" by simp
  from some_pool_stops [OF _ _ this, of post] a
  obtain c' where sp: "some_pool (maximumParticles s) 0 (pools s) = (None, c', pools s)"
    and c': "real c' > maximumParticles s"
    by auto
  from c' have "\<not> real c' < maximumParticles s" by simp
  from getOrCreateParticle_full [OF sp this] show "getOrCreateParticle s = Some (None, s)"
    by simp
next
  let ?cs = "[GetParticle, GetParticle, GetParticle, DecreasePool None (Some 1)]"
  have "\<exists>s0. final_state ?cs (DynamicParticlePool 0 (test_options 10 0 2)) = Some s0 \<and>
      (\<exists>pl\<in>set (pools s0). available pl \<noteq> []) \<and>
      getOrCreateParticle s0 = Some (None, s0)"
    by (simp add: run_defs construct_defs)
  then show "\<exists>cs opts s0. final_state cs (DynamicParticlePool 0 opts) = Some s0 \<and>
      (\<exists>pl\<in>set (pools s0). available pl \<noteq> []) \<and>
      getOrCreateParticle s0 = Some (None, s0)"
    by blast
qed

theorem scan_stops_before_available_witness:
  "pools (example_state 3 [([], 5), ([(1, 2)], 5)]) =
     [\<lparr>mesh = 0, verticesNeedUpdate = False, available = [], pool_size = 5\<rparr>] @
     [\<lparr>mesh = 1, verticesNeedUpdate = False, available = [(1, 2)], pool_size = 5\<rparr>] \<and>
   real (sum_list (map pool_size
     [\<lparr>mesh = 0, verticesNeedUpdate = False, available = [], pool_size = 5\<rparr>]))
     > maximumParticles (example_state 3 [([], 5), ([(1, 2)], 5)]) \<and>
   getOrCreateParticle (example_state 3 [([], 5), ([(1, 2)], 5)])
     = Some (None, example_state 3 [([], 5), ([(1, 2)], 5)]) \<and>
   map available (pools (example_state 3 [([], 5), ([(1, 2)], 5)])) = [[], [(1, 2)]]"
proof -
  let ?s = "example_state 3 [([], 5), ([(1, 2)], 5)]"
  let ?a = "\<lparr>mesh = 0, verticesNeedUpdate = False, available = [], pool_size = 5\<rparr>"
  let ?b = "\<lparr>mesh = 1, verticesNeedUpdate = False, available = [(1, 2)], pool_size = 5\<rparr>"
  have h1: "pools ?s = [?a] @ [?b]" by (simp add: example_defs)
  have h2: "\<forall>q\<in>set [?a]. available q = []" by simp
  have h3: "real (sum_list (map pool_size [?a])) > maximumParticles ?s"
    by (simp add: example_defs)
  have h4: "map available (pools ?s) = [[], [(1, 2)]]" by (simp add: example_defs)
  from scan_stops_before_available [of ?s "[?a]" "[?b]"] h1 h2 h3
  have "getOrCreateParticle ?s = Some (None, ?s)" by blast
  with h1 h3 h4 show ?thesis by blast
qed

section \<open>free, then getParticle\<close>

text \<open>
  C5 (as the code has it). \<open>free\<close> pushes the particle at the end of \<open>available\<close> of its
  geometry and \<open>getOrCreateParticle\<close> shifts from the front of the first entry that has a
  waiting particle. So \<open>free\<close> followed by \<open>getOrCreateParticle\<close> returns the freed particle
  when its geometry is an entry of \<open>pools\<close>, nothing waits in that entry or in an entry before
  it, and the sizes of the entries before it sum to at most \<open>maximumParticles\<close>; every array
  \<open>available\<close> is then as it was before the \<open>free\<close>.
\<close>

theorem free_then_get_same_particle:
  assumes "pools s = pre @ pl # post"
    and "mesh pl = fst p"
    and "available pl = []"
    and "\<forall>q\<in>set pre. available q = []"
    and "\<forall>q\<in>set pre \<union> set post. mesh q \<noteq> fst p"
    and "real (sum_list (map pool_size pre)) \<le> maximumParticles s"
  shows "\<exists>s1 s2. free p s = Inr s1 \<and> getOrCreateParticle s1 = Some (Some p, s2) \<and>
           map available (pools s2) = map available (pools s)"
proof -
  define s1 where "s1 = s\<lparr>position := (position s)(p := offPos s),
                 pools := map (push_available (fst p) p) (pools s),
                 disposed := map (push_available (fst p) p) (disposed s)\<rparr>"
  have f: "free p s = Inr s1" by (simp add: free_def freePoolParticle_def s1_def)
  have pre: "map (push_available (fst p) p) pre = pre"
    using assms(5) by (intro push_available_other) auto
  have post: "map (push_available (fst p) p) post = post"
    using assms(5) by (intro push_available_other) auto
  let ?pl = "pl\<lparr>available := [p]\<rparr>"
  have p1: "pools s1 = pre @ ?pl # post"
    using assms(1,2,3) pre post by (simp add: s1_def push_available_def)
  have a: "available ?pl = p # []" by simp
  have m: "real (sum_list (map pool_size pre)) \<le> maximumParticles s1"
    using assms(6) by (simp add: s1_def)
  from getOrCreateParticle_serves [OF p1 assms(4) a m]
  have g: "getOrCreateParticle s1 = Some (Some p, s1\<lparr>pools := pre @ ?pl\<lparr>available := []\<rparr> # post\<rparr>)" .
  have "map available (pools (s1\<lparr>pools := pre @ ?pl\<lparr>available := []\<rparr> # post\<rparr>))
      = map available (pools s)"
    using assms(1,3) by simp
  with f g show ?thesis by blast
qed

theorem free_then_get_same_particle_witness:
  "pools (example_state 10 [([], 5), ([], 5), ([(2, 0)], 5)]) =
     [\<lparr>mesh = 0, verticesNeedUpdate = False, available = [], pool_size = 5\<rparr>] @
     \<lparr>mesh = 1, verticesNeedUpdate = False, available = [], pool_size = 5\<rparr> #
     [\<lparr>mesh = 2, verticesNeedUpdate = False, available = [(2, 0)], pool_size = 5\<rparr>] \<and>
   real (sum_list (map pool_size
     [\<lparr>mesh = 0, verticesNeedUpdate = False, available = [], pool_size = 5\<rparr>]))
     \<le> maximumParticles (example_state 10 [([], 5), ([], 5), ([(2, 0)], 5)]) \<and>
   (\<exists>s1 s2. free (1, 4) (example_state 10 [([], 5), ([], 5), ([(2, 0)], 5)]) = Inr s1 \<and>
      getOrCreateParticle s1 = Some (Some (1, 4), s2) \<and>
      map available (pools s2) = [[], [], [(2, 0)]])"
proof -
  let ?s = "example_state 10 [([], 5), ([], 5), ([(2, 0)], 5)]"
  let ?a = "\<lparr>mesh = 0, verticesNeedUpdate = False, available = [], pool_size = 5\<rparr>"
  let ?b = "\<lparr>mesh = 1, verticesNeedUpdate = False, available = [], pool_size = 5\<rparr>"
  let ?c = "\<lparr>mesh = 2, verticesNeedUpdate = False, available = [(2, 0)], pool_size = 5\<rparr>"
  have h1: "pools ?s = [?a] @ ?b # [?c]" by (simp add: example_defs)
  have h2: "mesh ?b = fst (1::nat, 4::nat)" by simp
  have h3: "available ?b = []" by simp
  have h4: "\<forall>q\<in>set [?a]. available q = []" by simp
  have h5: "\<forall>q\<in>set [?a] \<union> set [?c]. mesh q \<noteq> fst (1::nat, 4::nat)" by simp
  have h6: "real (sum_list (map pool_size [?a])) \<le> maximumParticles ?s"
    by (simp add: example_defs)
  have h7: "map available (pools ?s) = [[], [], [(2, 0)]]" by (simp add: example_defs)
  from free_then_get_same_particle [OF h1 h2 h3 h4 h5 h6] h1 h6 h7 show ?thesis by simp
qed

text \<open>
  The claim as it was stated fails where another particle waits before the freed one: the
  first particle of a fresh geometry of five is freed and the next call returns the second.
\<close>

theorem free_then_get_counterexample:
  "results [GetParticle, Free (0, 0), GetParticle] (DynamicParticlePool 0 (test_options 10 0 5))
     = Some [Got (Some (0, 0)), Freed (0, 0), Got (Some (0, 1))]"
  by (simp add: run_defs construct_defs)

section \<open>cleanUp\<close>

text \<open>What the \<open>forEach\<close> of \<open>cleanUp\<close> computes.\<close>

lemma firstIdle_from_bounds:
  "acc \<le> i \<Longrightarrow> acc \<le> firstIdle_from i acc pls \<and> firstIdle_from i acc pls \<le> i + length pls"
proof (induction pls arbitrary: i acc)
  case Nil
  then show ?case by simp
next
  case (Cons pl pls)
  let ?acc = "if length (available pl) \<noteq> pool_size pl then Suc i else acc"
  have "?acc \<le> Suc i" using Cons.prems by simp
  from Cons.IH [OF this] Cons.prems show ?case by (auto split: if_splits)
qed

lemma firstIdle_from_idle_after:
  "acc \<le> i \<Longrightarrow> firstIdle_from i acc pls \<le> i + j \<Longrightarrow> j < length pls \<Longrightarrow>
   length (available (pls ! j)) = pool_size (pls ! j)"
proof (induction pls arbitrary: i acc j)
  case Nil
  then show ?case by simp
next
  case (Cons pl pls)
  let ?acc = "if length (available pl) \<noteq> pool_size pl then Suc i else acc"
  have le: "?acc \<le> Suc i" using Cons.prems(1) by simp
  show ?case
  proof (cases j)
    case 0
    from firstIdle_from_bounds [OF le, of pls] Cons.prems(2) 0
    have "?acc \<le> i" by simp
    then show ?thesis using 0 by (simp split: if_splits)
  next
    case (Suc k)
    from Cons.prems(2) Suc have "firstIdle_from (Suc i) ?acc pls \<le> Suc i + k" by simp
    from Cons.IH [OF le this] Cons.prems(3) Suc show ?thesis by simp
  qed
qed

lemma firstIdle_from_busy_before:
  "firstIdle_from i acc pls = acc \<or>
   (\<exists>j<length pls. firstIdle_from i acc pls = i + Suc j \<and>
      length (available (pls ! j)) \<noteq> pool_size (pls ! j))"
proof (induction pls arbitrary: i acc)
  case Nil
  then show ?case by simp
next
  case (Cons pl pls)
  let ?acc = "if length (available pl) \<noteq> pool_size pl then Suc i else acc"
  from Cons.IH [of "Suc i" ?acc]
  consider "firstIdle_from (Suc i) ?acc pls = ?acc"
    | j where "j < length pls" "firstIdle_from (Suc i) ?acc pls = Suc i + Suc j"
        "length (available (pls ! j)) \<noteq> pool_size (pls ! j)"
    by blast
  then show ?case
  proof cases
    case 1
    show ?thesis
    proof (cases "length (available pl) \<noteq> pool_size pl")
      case True
      with 1 have "firstIdle_from i acc (pl # pls) = i + Suc 0 \<and>
          length (available ((pl # pls) ! 0)) \<noteq> pool_size ((pl # pls) ! 0)" by simp
      then show ?thesis by blast
    next
      case False
      with 1 show ?thesis by simp
    qed
  next
    case 2
    then have "Suc j < length (pl # pls) \<and> firstIdle_from i acc (pl # pls) = i + Suc (Suc j) \<and>
        length (available ((pl # pls) ! Suc j)) \<noteq> pool_size ((pl # pls) ! Suc j)" by simp
    then show ?thesis by blast
  qed
qed

lemma firstIdlePoolIndex_le: "firstIdlePoolIndex pls \<le> length pls"
  using firstIdle_from_bounds [of 0 0 pls] by (simp add: firstIdlePoolIndex_def)

lemma cleanUp_removes:
  assumes "1 < length (pools s) - firstIdlePoolIndex (pools s)"
  shows "cleanUp s =
     s\<lparr>pools := take (firstIdlePoolIndex (pools s) + 1) (pools s),
       object3d := fold (\<lambda>pl items. remove1 (mesh pl) items)
                     (drop (firstIdlePoolIndex (pools s) + 1) (pools s)) (object3d s),
       disposed := disposed s @ map dispose_pool (drop (firstIdlePoolIndex (pools s) + 1) (pools s))\<rparr>"
proof -
  let ?fi = "firstIdlePoolIndex (pools s)"
  have i: "int (length (pools s)) - int ?fi > 1" using assms by linarith
  have n: "nat (int (length (pools s)) - int ?fi - 1) = length (pools s) - ?fi - 1" by linarith
  have "splice_js (?fi + 1) (length (pools s) - ?fi - 1) (pools s) =
      (drop (?fi + 1) (pools s), take (?fi + 1) (pools s))"
    by (simp add: splice_js_def)
  with i n show ?thesis by (simp add: cleanUp_def Let_def)
qed

lemma cleanUp_keeps:
  assumes "length (pools s) - firstIdlePoolIndex (pools s) \<le> 1"
  shows "cleanUp s = s"
proof -
  have "\<not> int (length (pools s)) - int (firstIdlePoolIndex (pools s)) > 1"
    using assms by linarith
  then show ?thesis by (simp add: cleanUp_def Let_def)
qed

text \<open>
  C4. Let \<open>fi\<close> be \<open>firstIdlePoolIndex\<close> of \<open>pools\<close> and \<open>n\<close> the number of entries. \<open>fi\<close> is
  one past the last entry whose \<open>available.length\<close> differs from its \<open>size\<close>: every entry
  from \<open>fi\<close> on is idle, and the entry before \<open>fi\<close>, if there is one, is not. When more than
  one entry is idle at the end (\<open>1 < n - fi\<close>), \<open>cleanUp\<close> keeps the entries up to and with
  the one at \<open>fi\<close> and removes the \<open>n - fi - 1\<close> others; the mesh of each removed entry is
  removed from \<open>object3d\<close> and its array \<open>available\<close> is emptied. Otherwise \<open>cleanUp\<close> changes
  nothing.
\<close>

theorem cleanUp_keeps_one_spare:
  assumes "fi = firstIdlePoolIndex (pools s)" and "n = length (pools s)"
  shows "fi \<le> n \<and>
    (\<forall>j. fi \<le> j \<and> j < n \<longrightarrow> length (available (pools s ! j)) = pool_size (pools s ! j)) \<and>
    (0 < fi \<longrightarrow> length (available (pools s ! (fi - 1))) \<noteq> pool_size (pools s ! (fi - 1))) \<and>
    (1 < n - fi \<longrightarrow>
       pools (cleanUp s) = take (fi + 1) (pools s) \<and>
       length (pools (cleanUp s)) + (n - fi - 1) = n \<and>
       pools (cleanUp s) ! fi = pools s ! fi \<and>
       object3d (cleanUp s) =
         fold (\<lambda>pl items. remove1 (mesh pl) items) (drop (fi + 1) (pools s)) (object3d s) \<and>
       disposed (cleanUp s) =
         disposed s @ map (\<lambda>pl. pl\<lparr>available := []\<rparr>) (drop (fi + 1) (pools s))) \<and>
    (n - fi \<le> 1 \<longrightarrow> cleanUp s = s)"
proof (intro conjI allI impI)
  show "fi \<le> n" using assms firstIdlePoolIndex_le by simp
next
  fix j assume "fi \<le> j \<and> j < n"
  then show "length (available (pools s ! j)) = pool_size (pools s ! j)"
    using firstIdle_from_idle_after [of 0 0 "pools s" j] assms
    by (simp add: firstIdlePoolIndex_def)
next
  assume "0 < fi"
  with firstIdle_from_busy_before [of 0 0 "pools s"] assms
  show "length (available (pools s ! (fi - 1))) \<noteq> pool_size (pools s ! (fi - 1))"
    by (auto simp: firstIdlePoolIndex_def)
next
  assume a: "1 < n - fi"
  then have r: "1 < length (pools s) - firstIdlePoolIndex (pools s)" using assms by simp
  note c = cleanUp_removes [OF r]
  show "pools (cleanUp s) = take (fi + 1) (pools s)" using assms by (simp add: c)
  show "length (pools (cleanUp s)) + (n - fi - 1) = n" using assms a by (simp add: c)
  show "pools (cleanUp s) ! fi = pools s ! fi" using assms by (simp add: c)
  show "object3d (cleanUp s) =
         fold (\<lambda>pl items. remove1 (mesh pl) items) (drop (fi + 1) (pools s)) (object3d s)"
    using assms by (simp add: c)
  show "disposed (cleanUp s) =
         disposed s @ map (\<lambda>pl. pl\<lparr>available := []\<rparr>) (drop (fi + 1) (pools s))"
    using assms by (simp add: c dispose_pool_def)
next
  assume "n - fi \<le> 1"
  then show "cleanUp s = s" using assms cleanUp_keeps by simp
qed

theorem cleanUp_keeps_one_spare_witness:
  "firstIdlePoolIndex (pools (example_state 10
      [([(0, 0), (0, 1)], 2), ([(1, 1)], 2), ([(2, 0), (2, 1)], 2), ([(3, 0), (3, 1)], 2),
       ([(4, 1), (4, 0)], 2)])) = 2 \<and>
   length (pools (example_state 10
      [([(0, 0), (0, 1)], 2), ([(1, 1)], 2), ([(2, 0), (2, 1)], 2), ([(3, 0), (3, 1)], 2),
       ([(4, 1), (4, 0)], 2)])) = 5 \<and>
   map mesh (pools (cleanUp (example_state 10
      [([(0, 0), (0, 1)], 2), ([(1, 1)], 2), ([(2, 0), (2, 1)], 2), ([(3, 0), (3, 1)], 2),
       ([(4, 1), (4, 0)], 2)]))) = [0, 1, 2] \<and>
   object3d (cleanUp (example_state 10
      [([(0, 0), (0, 1)], 2), ([(1, 1)], 2), ([(2, 0), (2, 1)], 2), ([(3, 0), (3, 1)], 2),
       ([(4, 1), (4, 0)], 2)])) = [0, 1, 2] \<and>
   map available (disposed (cleanUp (example_state 10
      [([(0, 0), (0, 1)], 2), ([(1, 1)], 2), ([(2, 0), (2, 1)], 2), ([(3, 0), (3, 1)], 2),
       ([(4, 1), (4, 0)], 2)]))) = [[], []] \<and>
   cleanUp (example_state 10 [([], 2), ([(1, 0), (1, 1)], 2)])
     = example_state 10 [([], 2), ([(1, 0), (1, 1)], 2)]"
proof -
  let ?s = "example_state 10
      [([(0, 0), (0, 1)], 2), ([(1, 1)], 2), ([(2, 0), (2, 1)], 2), ([(3, 0), (3, 1)], 2),
       ([(4, 1), (4, 0)], 2)]"
  let ?t = "example_state 10 [([], 2), ([(1, 0), (1, 1)], 2)]"
  have f: "firstIdlePoolIndex (pools ?s) = 2" by (simp add: example_defs firstIdlePoolIndex_def)
  have n: "length (pools ?s) = 5" by (simp add: example_defs)
  have ft: "firstIdlePoolIndex (pools ?t) = 1" by (simp add: example_defs firstIdlePoolIndex_def)
  have nt: "length (pools ?t) = 2" by (simp add: example_defs)
  from cleanUp_keeps_one_spare [OF f [symmetric] n [symmetric]]
  have p: "pools (cleanUp ?s) = take (2 + 1) (pools ?s)"
    and o: "object3d (cleanUp ?s) =
         fold (\<lambda>pl items. remove1 (mesh pl) items) (drop (2 + 1) (pools ?s)) (object3d ?s)"
    and d: "disposed (cleanUp ?s) =
         disposed ?s @ map (\<lambda>pl. pl\<lparr>available := []\<rparr>) (drop (2 + 1) (pools ?s))"
    by simp_all
  have p': "map mesh (pools (cleanUp ?s)) = [0, 1, 2]"
    unfolding p by (simp add: example_defs)
  have o': "object3d (cleanUp ?s) = [0, 1, 2]"
    unfolding o by (simp add: example_defs)
  have d': "map available (disposed (cleanUp ?s)) = [[], []]"
    unfolding d by (simp add: example_defs)
  from cleanUp_keeps_one_spare [OF ft [symmetric] nt [symmetric]]
  have k: "cleanUp ?t = ?t" by simp
  from f n p' o' d' k show ?thesis by blast
qed

section \<open>update\<close>

lemma cleanUp_keeps_clock:
  "lastCleanup (cleanUp s) = lastCleanup s \<and> cleanupInterval (cleanUp s) = cleanupInterval s"
  by (simp add: cleanUp_def Let_def split: prod.splits)

lemma mark_pools_keeps_clock:
  "lastCleanup (mark_pools s) = lastCleanup s \<and> cleanupInterval (mark_pools s) = cleanupInterval s"
  by (simp add: mark_pools_def)

lemma update_keeps_interval: "cleanupInterval (update now now' s) = cleanupInterval s"
  by (simp add: update_def Let_def cleanUp_keeps_clock mark_pools_keeps_clock)

lemma update_ran:
  "interval_elapsed (now - lastCleanup s) (cleanupInterval s) \<Longrightarrow>
   update now now' s = (cleanUp (mark_pools s))\<lparr>lastCleanup := now'\<rparr>"
  by (simp add: update_def Let_def)

lemma update_skipped:
  "\<not> interval_elapsed (now - lastCleanup s) (cleanupInterval s) \<Longrightarrow>
   update now now' s = mark_pools s"
  by (simp add: update_def Let_def)

lemma create_times_numeral:
  "create_times (numeral k) s = create_times (pred_numeral k) (createGeometry s)"
  by (simp add: numeral_eq_Suc)

lemmas update_eval = update_def interval_elapsed_def mark_pools_def cleanUp_def
  firstIdlePoolIndex_def splice_js_def dispose_pool_def Let_def

text \<open>
  C9 (as the code has it). \<open>update\<close> runs \<open>cleanUp\<close> if and only if more than
  \<open>cleanupInterval\<close> milliseconds have passed since \<open>lastCleanup\<close> (\<open>interval_elapsed\<close>: the
  difference is greater than the interval; never, for \<open>Infinity\<close>). \<open>lastCleanup\<close> is set to
  the new reading of the clock exactly when \<open>cleanUp\<close> was run, and is left as it was
  otherwise. After a call that ran \<open>cleanUp\<close>, a call made no more than the interval after the
  new \<open>lastCleanup\<close> does not run it again.
\<close>

theorem cleanup_runs_after_interval:
  "interval_elapsed d None = False \<and> interval_elapsed d (Some ms) = (real_of_int d > ms) \<and>
   (interval_elapsed (now - lastCleanup s) (cleanupInterval s) \<longrightarrow>
      update now now' s = (cleanUp (mark_pools s))\<lparr>lastCleanup := now'\<rparr> \<and>
      lastCleanup (update now now' s) = now') \<and>
   (\<not> interval_elapsed (now - lastCleanup s) (cleanupInterval s) \<longrightarrow>
      update now now' s = mark_pools s \<and>
      lastCleanup (update now now' s) = lastCleanup s) \<and>
   (interval_elapsed (now - lastCleanup s) (cleanupInterval s) \<and>
    \<not> interval_elapsed (t - now') (cleanupInterval s) \<longrightarrow>
      update t t' (update now now' s) = mark_pools (update now now' s) \<and>
      lastCleanup (update t t' (update now now' s)) = now')"
proof (intro conjI impI)
  show "interval_elapsed d None = False" by (simp add: interval_elapsed_def)
  show "interval_elapsed d (Some ms) = (real_of_int d > ms)" by (simp add: interval_elapsed_def)
next
  assume a: "interval_elapsed (now - lastCleanup s) (cleanupInterval s)"
  from update_ran [OF a] show "update now now' s = (cleanUp (mark_pools s))\<lparr>lastCleanup := now'\<rparr>" .
  then show "lastCleanup (update now now' s) = now'" by simp
next
  assume a: "\<not> interval_elapsed (now - lastCleanup s) (cleanupInterval s)"
  from update_skipped [OF a] show "update now now' s = mark_pools s" .
  then show "lastCleanup (update now now' s) = lastCleanup s"
    by (simp add: mark_pools_keeps_clock)
next
  assume a: "interval_elapsed (now - lastCleanup s) (cleanupInterval s) \<and>
    \<not> interval_elapsed (t - now') (cleanupInterval s)"
  then have l: "lastCleanup (update now now' s) = now'" by (simp add: update_ran)
  from a have "\<not> interval_elapsed (t - lastCleanup (update now now' s))
      (cleanupInterval (update now now' s))"
    by (simp add: l update_keeps_interval)
  from update_skipped [OF this]
  show u: "update t t' (update now now' s) = mark_pools (update now now' s)" .
  show "lastCleanup (update t t' (update now now' s)) = now'"
    by (simp add: u mark_pools_keeps_clock l)
qed

theorem cleanup_runs_after_interval_witness:
  "interval_elapsed (11 - lastCleanup (example_state 10 [([(0, 0)], 1), ([(1, 0)], 1), ([(2, 0)], 1)]))
     (cleanupInterval (example_state 10 [([(0, 0)], 1), ([(1, 0)], 1), ([(2, 0)], 1)])) \<and>
   \<not> interval_elapsed (22 - 12)
     (cleanupInterval (example_state 10 [([(0, 0)], 1), ([(1, 0)], 1), ([(2, 0)], 1)])) \<and>
   \<not> interval_elapsed (10 - lastCleanup (example_state 10 [([(0, 0)], 1), ([(1, 0)], 1), ([(2, 0)], 1)]))
     (cleanupInterval (example_state 10 [([(0, 0)], 1), ([(1, 0)], 1), ([(2, 0)], 1)])) \<and>
   lastCleanup (update 11 12 (example_state 10 [([(0, 0)], 1), ([(1, 0)], 1), ([(2, 0)], 1)])) = 12 \<and>
   map mesh (pools (update 11 12 (example_state 10 [([(0, 0)], 1), ([(1, 0)], 1), ([(2, 0)], 1)]))) = [0] \<and>
   lastCleanup (update 10 10 (example_state 10 [([(0, 0)], 1), ([(1, 0)], 1), ([(2, 0)], 1)])) = 0 \<and>
   map mesh (pools (update 10 10 (example_state 10 [([(0, 0)], 1), ([(1, 0)], 1), ([(2, 0)], 1)]))) = [0, 1, 2] \<and>
   lastCleanup (update 22 23 (update 11 12
     (example_state 10 [([(0, 0)], 1), ([(1, 0)], 1), ([(2, 0)], 1)]))) = 12"
proof -
  let ?s = "example_state 10 [([(0, 0)], 1), ([(1, 0)], 1), ([(2, 0)], 1)]"
  have h1: "interval_elapsed (11 - lastCleanup ?s) (cleanupInterval ?s)"
    by (simp add: example_defs interval_elapsed_def)
  have h2: "\<not> interval_elapsed (22 - 12) (cleanupInterval ?s)"
    by (simp add: example_defs interval_elapsed_def)
  have h3: "\<not> interval_elapsed (10 - lastCleanup ?s) (cleanupInterval ?s)"
    by (simp add: example_defs interval_elapsed_def)
  note t1 = cleanup_runs_after_interval [of 0 0 11 ?s 12 22 23]
  note u1 = t1 [THEN conjunct2, THEN conjunct2, THEN conjunct1, rule_format, OF h1, THEN conjunct1]
  have c1: "lastCleanup (update 11 12 ?s) = 12" by (subst u1) simp
  have c2: "map mesh (pools (update 11 12 ?s)) = [0]"
    unfolding u1 by (simp add: example_defs mark_pools_def cleanUp_def firstIdlePoolIndex_def
        splice_js_def Let_def)
  note t2 = cleanup_runs_after_interval [of 0 0 10 ?s 10 0 0]
  note u2 = t2 [THEN conjunct2, THEN conjunct2, THEN conjunct2, THEN conjunct1, rule_format,
      OF h3, THEN conjunct1]
  have c3: "lastCleanup (update 10 10 ?s) = 0"
    unfolding u2 by (simp add: example_defs mark_pools_def)
  have c4: "map mesh (pools (update 10 10 ?s)) = [0, 1, 2]"
    unfolding u2 by (simp add: example_defs mark_pools_def comp_def)
  note c5 = t1 [THEN conjunct2, THEN conjunct2, THEN conjunct2, THEN conjunct2, rule_format,
      OF conjI [OF h1 h2], THEN conjunct2]
  show ?thesis
    apply (intro conjI)
    apply (rule h1)
    apply (rule h2)
    apply (rule h3)
    apply (rule c1)
    apply (rule c2)
    apply (rule c3)
    apply (rule c4)
    apply (rule c5)
    done
qed

text \<open>
  With "at least" the claim fails: exactly \<open>cleanupInterval\<close> (10 ms) after \<open>lastCleanup\<close>,
  \<open>update\<close> leaves both idle entries in \<open>pools\<close> (\<open>cleanUp\<close> would remove one) and leaves
  \<open>lastCleanup\<close> at 0.
\<close>

theorem cleanup_runs_after_interval_counterexample:
  "cleanupInterval (DynamicParticlePool 0 (interval_options 10 4 2 10)) = Some 10 \<and>
   lastCleanup (DynamicParticlePool 0 (interval_options 10 4 2 10)) = 0 \<and>
   length (pools (DynamicParticlePool 0 (interval_options 10 4 2 10))) = 2 \<and>
   length (pools (cleanUp (DynamicParticlePool 0 (interval_options 10 4 2 10)))) = 1 \<and>
   length (pools (update 10 10 (DynamicParticlePool 0 (interval_options 10 4 2 10)))) = 2 \<and>
   lastCleanup (update 10 10 (DynamicParticlePool 0 (interval_options 10 4 2 10))) = 0"
  by (simp add: interval_options_def construct_defs create_times_numeral; simp add: update_eval)

section \<open>increasePool\<close>




section \<open>The check of freePoolParticle\<close>

text \<open>
  C6 (as the code has it). \<open>freePoolParticle\<close> throws, before it changes anything, when
  \<open>this\<close> is falsy (the call through a copied reference) or has no function \<open>free\<close>. With a
  particle as \<open>this\<close> it does not throw, whichever geometry the closure belongs to: the
  particle is moved to \<open>offPos\<close> and pushed on \<open>available\<close> of the closure's geometry. Called
  as \<open>particle.free()\<close>, that is the particle's own geometry: the particle is pushed at the end
  of \<open>available\<close> of its entry of \<open>pools\<close> and no other entry changes.
\<close>

theorem free_checks_context:
  "freePoolParticle g Undefined s = Inl OriginalContextError \<and>
   freePoolParticle g NoFreeFunction s = Inl OriginalContextError \<and>
   (\<exists>s'. freePoolParticle g (Vertex p) s = Inr s' \<and> position s' p = offPos s \<and>
      pools s' = map (push_available g p) (pools s)) \<and>
   (pools s = pre @ pl # post \<and> mesh pl = fst p \<and> (\<forall>q\<in>set pre \<union> set post. mesh q \<noteq> fst p)
      \<longrightarrow> (\<exists>s'. free p s = Inr s' \<and> position s' p = offPos s \<and>
             pools s' = pre @ pl\<lparr>available := available pl @ [p]\<rparr> # post))"
proof (intro conjI impI)
  show "freePoolParticle g Undefined s = Inl OriginalContextError"
    by (simp add: freePoolParticle_def)
  show "freePoolParticle g NoFreeFunction s = Inl OriginalContextError"
    by (simp add: freePoolParticle_def)
  show "\<exists>s'. freePoolParticle g (Vertex p) s = Inr s' \<and> position s' p = offPos s \<and>
      pools s' = map (push_available g p) (pools s)"
    by (simp add: freePoolParticle_def)
next
  assume a: "pools s = pre @ pl # post \<and> mesh pl = fst p \<and>
    (\<forall>q\<in>set pre \<union> set post. mesh q \<noteq> fst p)"
  have pre: "map (push_available (fst p) p) pre = pre"
    using a by (intro push_available_other) auto
  have post: "map (push_available (fst p) p) post = post"
    using a by (intro push_available_other) auto
  have "map (push_available (fst p) p) (pools s) =
      pre @ pl\<lparr>available := available pl @ [p]\<rparr> # post"
    using a pre post by (simp add: push_available_def)
  then show "\<exists>s'. free p s = Inr s' \<and> position s' p = offPos s \<and>
             pools s' = pre @ pl\<lparr>available := available pl @ [p]\<rparr> # post"
    by (simp add: free_def freePoolParticle_def)
qed

theorem free_checks_context_witness:
  "pools (example_state 10 [([], 5), ([(1, 2)], 5), ([], 5)]) =
     [\<lparr>mesh = 0, verticesNeedUpdate = False, available = [], pool_size = 5\<rparr>] @
     \<lparr>mesh = 1, verticesNeedUpdate = False, available = [(1, 2)], pool_size = 5\<rparr> #
     [\<lparr>mesh = 2, verticesNeedUpdate = False, available = [], pool_size = 5\<rparr>] \<and>
   position (example_state 10 [([], 5), ([(1, 2)], 5), ([], 5)]) (1, 4) = (0, 0, 0) \<and>
   (\<exists>s'. free (1, 4) (example_state 10 [([], 5), ([(1, 2)], 5), ([], 5)]) = Inr s' \<and>
      position s' (1, 4) = (9999999, 9999999, 9999999) \<and>
      map available (pools s') = [[], [(1, 2), (1, 4)], []])"
proof -
  let ?s = "example_state 10 [([], 5), ([(1, 2)], 5), ([], 5)]"
  let ?a = "\<lparr>mesh = 0, verticesNeedUpdate = False, available = [], pool_size = 5\<rparr>"
  let ?b = "\<lparr>mesh = 1, verticesNeedUpdate = False, available = [(1, 2)], pool_size = 5\<rparr>"
  let ?c = "\<lparr>mesh = 2, verticesNeedUpdate = False, available = [], pool_size = 5\<rparr>"
  have h1: "pools ?s = [?a] @ ?b # [?c]" by (simp add: example_defs)
  have h2: "mesh ?b = fst (1::nat, 4::nat)" by simp
  have h3: "\<forall>q\<in>set [?a] \<union> set [?c]. mesh q \<noteq> fst (1::nat, 4::nat)" by simp
  have h4: "position ?s (1, 4) = (0, 0, 0)" by (simp add: example_defs)
  have h5: "offPos ?s = (9999999, 9999999, 9999999)" by (simp add: example_defs)
  note t = free_checks_context [of 0 ?s "(1, 4)" "[?a]" ?b "[?c]"]
  note f = t [THEN conjunct2, THEN conjunct2, THEN conjunct2, rule_format,
      OF conjI [OF h1 conjI [OF h2 h3]]]
  from f obtain s' where "free (1, 4) ?s = Inr s'" "position s' (1, 4) = offPos ?s"
    "pools s' = [?a] @ ?b\<lparr>available := available ?b @ [(1, 4)]\<rparr> # [?c]" by blast
  then have "free (1, 4) ?s = Inr s' \<and> position s' (1, 4) = (9999999, 9999999, 9999999) \<and>
      map available (pools s') = [[], [(1, 2), (1, 4)], []]"
    using h5 by simp
  then have e: "\<exists>s'. free (1, 4) ?s = Inr s' \<and>
      position s' (1, 4) = (9999999, 9999999, 9999999) \<and>
      map available (pools s') = [[], [(1, 2), (1, 4)], []]" by (rule exI)
  show ?thesis
    apply (intro conjI)
    apply (rule h1)
    apply (rule h4)
    apply (rule e)
    done
qed

text \<open>
  A call that is not routed through the particle's own \<open>free\<close> is not always rejected: after
  both particles of two geometries of one were taken, the closure of geometry 0 called with the
  particle of geometry 1 as \<open>this\<close> returns normally and the particle waits in entry 0.
\<close>

theorem free_checks_context_counterexample:
  "map_option (map available \<circ> pools)
     (final_state [GetParticle, GetParticle] (DynamicParticlePool 0 (test_options 10 2 1)))
     = Some [[], []] \<and>
   map_option (map_sum id (map available \<circ> pools) \<circ> freePoolParticle 0 (Vertex (1, 0)))
     (final_state [GetParticle, GetParticle] (DynamicParticlePool 0 (test_options 10 2 1)))
     = Some (Inr [[(1, 0)], []])"
  by (simp add: run_defs construct_defs create_times_numeral)

section \<open>A limit of zero\<close>

lemma some_pool_length:
  "some_pool mx c pls = (r, c', pls') \<Longrightarrow> length pls' = length pls"
proof (induction pls arbitrary: c r c' pls')
  case Nil
  then show ?case by simp
next
  case (Cons pl pls)
  then show ?case
    by (auto split: list.splits if_splits prod.splits simp: Let_def)
qed

lemma getOrCreateParticle_no_growth:
  assumes "maximumParticles s \<le> 0"
  shows "\<exists>r s'. getOrCreateParticle s = Some (r, s') \<and> length (pools s') = length (pools s) \<and>
           maximumParticles s' = maximumParticles s"
proof -
  obtain r c pls where sp: "some_pool (maximumParticles s) 0 (pools s) = (r, c, pls)"
    by (cases "some_pool (maximumParticles s) 0 (pools s)") auto
  have l: "length pls = length (pools s)" using some_pool_length [OF sp] .
  have "0 \<le> real c" by simp
  with assms have "\<not> real c < maximumParticles s" by linarith
  then have "getOrCreateParticle s = Some (r, s\<lparr>pools := pls\<rparr>)"
    using sp by (subst getOrCreateParticle.simps) simp
  with l show ?thesis by simp
qed

lemma run_gets_no_growth:
  "maximumParticles s \<le> 0 \<Longrightarrow>
   \<exists>es s'. run (replicate n GetParticle) s = Some (es, s') \<and> length es = n \<and>
     length (pools s') = length (pools s)"
proof (induction n arbitrary: s)
  case 0
  then show ?case by simp
next
  case (Suc n)
  from getOrCreateParticle_no_growth [OF Suc.prems]
  obtain r s1 where g: "getOrCreateParticle s = Some (r, s1)"
    and l: "length (pools s1) = length (pools s)"
    and m: "maximumParticles s1 = maximumParticles s" by blast
  from m Suc.prems have "maximumParticles s1 \<le> 0" by simp
  from Suc.IH [OF this]
  obtain es s' where "run (replicate n GetParticle) s1 = Some (es, s')" "length es = n"
    "length (pools s') = length (pools s1)" by blast
  with g l show ?case by (simp add: getParticle_def)
qed

text \<open>
  C7 (as the code has it). In a state whose \<open>maximumParticles\<close> is 0 or less (such a state is
  reached by \<open>increasePool\<close> with a negative ratio), any number of calls of \<open>getParticle\<close>
  return and leave the number of entries of \<open>pools\<close> as it was. Whatever the limit, a particle
  that waits in the first entry is served.
\<close>

theorem no_growth_without_limit:
  "(maximumParticles s \<le> 0 \<longrightarrow>
      (\<exists>es s'. run (replicate n GetParticle) s = Some (es, s') \<and> length es = n \<and>
         length (pools s') = length (pools s))) \<and>
   (pools s = pl # pls \<and> available pl = p # rest \<longrightarrow>
      getOrCreateParticle s = Some (Some p, s\<lparr>pools := pl\<lparr>available := rest\<rparr> # pls\<rparr>))"
proof (intro conjI impI)
  assume "maximumParticles s \<le> 0"
  then show "\<exists>es s'. run (replicate n GetParticle) s = Some (es, s') \<and> length es = n \<and>
         length (pools s') = length (pools s)"
    by (rule run_gets_no_growth)
next
  assume a: "pools s = pl # pls \<and> available pl = p # rest"
  then have "some_pool (maximumParticles s) 0 (pools s) = (Some p, 0, pl\<lparr>available := rest\<rparr> # pls)"
    by simp
  then show "getOrCreateParticle s = Some (Some p, s\<lparr>pools := pl\<lparr>available := rest\<rparr> # pls\<rparr>)"
    by (rule getOrCreateParticle_found)
qed

theorem no_growth_without_limit_witness:
  "maximumParticles (increasePool (Some (- 1)) None (DynamicParticlePool 0 (test_options 10 2 2))) \<le> 0 \<and>
   length (pools (increasePool (Some (- 1)) None (DynamicParticlePool 0 (test_options 10 2 2)))) = 1 \<and>
   (\<exists>es s'. run (replicate 3 GetParticle)
        (increasePool (Some (- 1)) None (DynamicParticlePool 0 (test_options 10 2 2))) = Some (es, s') \<and>
      length es = 3 \<and> length (pools s') = 1) \<and>
   map_option fst (getOrCreateParticle
       (increasePool (Some (- 1)) None (DynamicParticlePool 0 (test_options 10 2 2))))
     = Some (Some (0, 0))"
proof -
  let ?s = "increasePool (Some (- 1)) None (DynamicParticlePool 0 (test_options 10 2 2))"
  let ?a = "\<lparr>mesh = 0, verticesNeedUpdate = False, available = [(0, 0), (0, 1)], pool_size = 2\<rparr>"
  have h1: "maximumParticles ?s \<le> 0"
    by (simp add: run_defs construct_defs create_times_numeral js_times_def binary64_nonpos
        min_le_iff_disj)
  have h2: "length (pools ?s) = 1"
    by (simp add: run_defs construct_defs create_times_numeral)
  have h3: "pools ?s = ?a # [] \<and> available ?a = (0, 0) # [(0, 1)]"
    by (simp add: run_defs construct_defs create_times_numeral)
  note t = no_growth_without_limit [of ?s 3 ?a "[]" "(0, 0)" "[(0, 1)]"]
  from t [THEN conjunct1, rule_format, OF h1] h2
  have c1: "\<exists>es s'. run (replicate 3 GetParticle) ?s = Some (es, s') \<and>
      length es = 3 \<and> length (pools s') = 1" by simp
  from t [THEN conjunct2, rule_format, OF h3]
  have c2: "map_option fst (getOrCreateParticle ?s) = Some (Some (0, 0))" by simp
  show ?thesis
    apply (intro conjI)
    apply (rule h1)
    apply (rule h2)
    apply (rule c1)
    apply (rule c2)
    done
qed

text \<open>
  The constructor does not produce such a state from the option \<open>maximumParticles: 0\<close>: the
  option is falsy and the limit becomes 100000. The pool then grows beyond the entries created
  for \<open>minimumParticles\<close>.
\<close>

theorem no_growth_without_limit_counterexample:
  "maximumParticles (DynamicParticlePool 0 (test_options 0 0 5)) = 100000 \<and>
   length (pools (DynamicParticlePool 0 (test_options 0 0 5))) = 0 \<and>
   map_option (length \<circ> pools) (final_state [GetParticle] (DynamicParticlePool 0 (test_options 0 0 5)))
     = Some 1 \<and>
   length (pools (DynamicParticlePool 0 (test_options 0 2 2))) = 1 \<and>
   results [GetParticle, GetParticle, GetParticle] (DynamicParticlePool 0 (test_options 0 2 2))
     = Some [Got (Some (0, 0)), Got (Some (0, 1)), Got (Some (1, 0))] \<and>
   map_option (length \<circ> pools)
     (final_state [GetParticle, GetParticle, GetParticle] (DynamicParticlePool 0 (test_options 0 2 2)))
     = Some 2"
  by (simp add: run_defs construct_defs create_times_numeral)

section \<open>Particles in use\<close>

subsection \<open>What getOrCreateParticle returns\<close>

lemma some_pool_Some:
  "some_pool mx c pls = (Some p, c', pls') \<Longrightarrow>
   \<exists>pre pl post rest. pls = pre @ pl # post \<and> (\<forall>q\<in>set pre. available q = []) \<and>
     available pl = p # rest \<and> pls' = pre @ pl\<lparr>available := rest\<rparr> # post"
proof (induction pls arbitrary: c c' pls')
  case Nil
  then show ?case by simp
next
  case (Cons a pls)
  show ?case
  proof (cases "available a")
    case Nil
    with Cons.prems obtain pls1 where sp: "some_pool mx (c + pool_size a) pls = (Some p, c', pls1)"
      and p': "pls' = a # pls1"
      by (auto simp: Let_def split: if_splits prod.splits)
    from Cons.IH [OF sp] obtain pre pl post rest where
      d: "pls = pre @ pl # post" "\<forall>q\<in>set pre. available q = []" "available pl = p # rest"
         "pls1 = pre @ pl\<lparr>available := rest\<rparr> # post"
      by blast
    from d Nil p' have "a # pls = (a # pre) @ pl # post \<and> (\<forall>q\<in>set (a # pre). available q = []) \<and>
      available pl = p # rest \<and> pls' = (a # pre) @ pl\<lparr>available := rest\<rparr> # post"
      by simp
    then show ?thesis by blast
  next
    case (Cons x rest)
    with Cons.prems have "a # pls = [] @ a # pls \<and> (\<forall>q\<in>set []. available q = []) \<and>
      available a = p # rest \<and> pls' = [] @ a\<lparr>available := rest\<rparr> # pls"
      by auto
    then show ?thesis by blast
  qed
qed

lemma createGeometry_fields:
  "pools (createGeometry s) = pools s @
     [\<lparr>mesh = nextId s, verticesNeedUpdate = False,
       available = new_particles (nextId s) (particlesPerGeometry s),
       pool_size = particlesPerGeometry s\<rparr>]"
  "maximumParticles (createGeometry s) = maximumParticles s"
  "particlesPerGeometry (createGeometry s) = particlesPerGeometry s"
  "nextId (createGeometry s) = Suc (nextId s)"
  by (simp_all add: createGeometry_def Let_def new_particles_def)

lemma new_particles_Cons:
  "0 < n \<Longrightarrow> new_particles g n = (g, 0) # map (\<lambda>i. (g, i)) [1..<n]"
  by (simp add: new_particles_def upt_conv_Cons)

text \<open>What a call of \<open>getOrCreateParticle\<close> returns when \<open>particlesPerGeometry\<close> is positive.\<close>

lemma getOrCreateParticle_result:
  assumes "0 < particlesPerGeometry s"
  shows "getOrCreateParticle s = Some (None, s) \<or>
    (\<exists>s1 pre pl post p rest. (s1 = s \<or> s1 = createGeometry s) \<and>
       pools s1 = pre @ pl # post \<and> (\<forall>q\<in>set pre. available q = []) \<and>
       available pl = p # rest \<and>
       getOrCreateParticle s = Some (Some p, s1\<lparr>pools := pre @ pl\<lparr>available := rest\<rparr> # post\<rparr>))"
proof -
  obtain r c pls where sp: "some_pool (maximumParticles s) 0 (pools s) = (r, c, pls)"
    by (cases "some_pool (maximumParticles s) 0 (pools s)") auto
  show ?thesis
  proof (cases r)
    case (Some p)
    from some_pool_Some [OF sp [unfolded Some]] obtain pre pl post rest where
      d: "pools s = pre @ pl # post" "\<forall>q\<in>set pre. available q = []" "available pl = p # rest"
         "pls = pre @ pl\<lparr>available := rest\<rparr> # post"
      by blast
    from getOrCreateParticle_found [OF sp [unfolded Some]] d(4)
    have "getOrCreateParticle s = Some (Some p, s\<lparr>pools := pre @ pl\<lparr>available := rest\<rparr> # post\<rparr>)"
      by simp
    with d show ?thesis by blast
  next
    case None
    from some_pool_None_pools [OF sp [unfolded None]] have pls: "pls = pools s" .
    show ?thesis
    proof (cases "real c < maximumParticles s")
      case False
      from getOrCreateParticle_full [OF sp [unfolded None] False] pls show ?thesis by simp
    next
      case True
      from some_pool_None_count [OF sp [unfolded None]] True
      have c: "c = sum_list (map pool_size (pools s))"
        and e: "\<forall>q\<in>set (pools s). available q = []" by auto
      let ?s1 = "createGeometry s"
      let ?new = "\<lparr>mesh = nextId s, verticesNeedUpdate = False,
         available = new_particles (nextId s) (particlesPerGeometry s),
         pool_size = particlesPerGeometry s\<rparr>"
      let ?rest = "map (\<lambda>i. (nextId s, i)) [1..<particlesPerGeometry s]"
      have p1: "pools ?s1 = pools s @ ?new # []" by (simp add: createGeometry_fields)
      have a: "available ?new = (nextId s, 0) # ?rest"
        using new_particles_Cons [OF assms] by simp
      have m: "real (sum_list (map pool_size (pools s))) \<le> maximumParticles ?s1"
        using True c by (simp add: createGeometry_fields)
      from getOrCreateParticle_serves [OF p1 e a m]
      have g1: "getOrCreateParticle ?s1 =
          Some (Some (nextId s, 0), ?s1\<lparr>pools := pools s @ ?new\<lparr>available := ?rest\<rparr> # []\<rparr>)" .
      from getOrCreateParticle_create [OF sp [unfolded None] True] pls
      have "getOrCreateParticle s = getOrCreateParticle ?s1" by simp
      with g1 have "(?s1 = s \<or> ?s1 = createGeometry s) \<and>
          pools ?s1 = pools s @ ?new # [] \<and> (\<forall>q\<in>set (pools s). available q = []) \<and>
          available ?new = (nextId s, 0) # ?rest \<and>
          getOrCreateParticle s =
            Some (Some (nextId s, 0), ?s1\<lparr>pools := pools s @ ?new\<lparr>available := ?rest\<rparr> # []\<rparr>)"
        using p1 e a by simp
      then show ?thesis by blast
    qed
  qed
qed

subsection \<open>The invariant\<close>

text \<open>
  \<open>pool_inv\<close> holds after the constructor and is kept by every call, a \<open>free\<close> being made
  on a particle in use.
\<close>

lemma push_available_mesh: "map mesh (map (push_available g p) pls) = map mesh pls"
  by (induction pls) (auto simp: push_available_def)

lemma push_available_set:
  "set (concat (map available (map (push_available g p) pls)))
     \<subseteq> insert p (set (concat (map available pls)))"
  by (induction pls) (auto simp: push_available_def)

lemma push_available_distinct:
  "distinct (map mesh pls) \<Longrightarrow> distinct (concat (map available pls)) \<Longrightarrow>
   p \<notin> set (concat (map available pls)) \<Longrightarrow>
   distinct (concat (map available (map (push_available g p) pls)))"
proof (induction pls)
  case Nil
  then show ?case by simp
next
  case (Cons a pls)
  show ?case
  proof (cases "mesh a = g")
    case True
    from Cons.prems(1) have "mesh a \<notin> mesh ` set pls" by simp
    with True have "\<forall>q\<in>set pls. mesh q \<noteq> g" by blast
    then have e: "map (push_available g p) pls = pls" by (rule push_available_other)
    have "push_available g p a = a\<lparr>available := available a @ [p]\<rparr>"
      using True by (simp add: push_available_def)
    then have c: "concat (map available (map (push_available g p) (a # pls))) =
        available a @ [p] @ concat (map available pls)"
      by (simp add: e)
    have "distinct (available a @ [p] @ concat (map available pls))"
      using Cons.prems(2,3) by auto
    then show ?thesis by (simp only: c)
  next
    case False
    from Cons have d: "distinct (concat (map available (map (push_available g p) pls)))"
      by simp
    have dis: "set (available a) \<inter> set (concat (map available pls)) = {}"
      and da: "distinct (available a)"
      using Cons.prems(2) by simp_all
    have pn: "p \<notin> set (available a)" using Cons.prems(3) by simp
    from push_available_set [of g p pls] dis pn
    have "set (available a) \<inter> set (concat (map available (map (push_available g p) pls))) = {}"
      by blast
    moreover have "push_available g p a = a" using False by (simp add: push_available_def)
    ultimately show ?thesis using d da by simp
  qed
qed

lemma new_particles_props:
  "distinct (new_particles g n)" "\<forall>p\<in>set (new_particles g n). fst p = g"
  by (auto simp: new_particles_def distinct_map inj_on_def)

lemma pool_inv_createGeometry:
  assumes "pool_inv live s"
  shows "pool_inv live (createGeometry s)"
proof -
  let ?g = "nextId s"
  let ?new = "new_particles ?g (particlesPerGeometry s)"
  have q: "queued (createGeometry s) = queued s @ ?new"
    by (simp add: queued_def createGeometry_fields)
  have old: "\<forall>p\<in>set (queued s) \<union> set live. fst p < ?g" using assms by (simp add: pool_inv_def)
  have new: "\<forall>p\<in>set ?new. fst p = ?g" by (rule new_particles_props)
  have fresh: "x \<notin> set (queued s) \<union> set live" if "x \<in> set ?new" for x
  proof
    assume "x \<in> set (queued s) \<union> set live"
    with old have "fst x < ?g" by blast
    moreover from new that have "fst x = ?g" by blast
    ultimately show False by simp
  qed
  have d1: "set (queued s) \<inter> set ?new = {}" using fresh by blast
  have d2: "set ?new \<inter> set live = {}" using fresh by blast
  have m: "\<forall>pl\<in>set (pools s). mesh pl < ?g" using assms by (simp add: pool_inv_def)
  then have m': "?g \<notin> mesh ` set (pools s)" by auto
  have "0 < particlesPerGeometry (createGeometry s)"
    using assms by (simp add: pool_inv_def createGeometry_fields)
  moreover have "distinct (map mesh (pools (createGeometry s)))"
    using assms m' by (simp add: pool_inv_def createGeometry_fields)
  moreover have "\<forall>pl\<in>set (pools (createGeometry s)). mesh pl < nextId (createGeometry s)"
    using m by (auto simp: createGeometry_fields less_Suc_eq)
  moreover have "distinct (queued (createGeometry s))"
    using assms d1 new_particles_props(1) by (simp add: q pool_inv_def)
  moreover have "set (queued (createGeometry s)) \<inter> set live = {}"
    using assms d2 by (auto simp: q pool_inv_def)
  moreover have "\<forall>p\<in>set (queued (createGeometry s)) \<union> set live. fst p < nextId (createGeometry s)"
    using old new by (auto simp: q createGeometry_fields less_Suc_eq)
  ultimately show ?thesis unfolding pool_inv_def by blast
qed

lemma pool_inv_served:
  assumes "pool_inv live s"
    and "pools s = pre @ pl # post"
    and "\<forall>q\<in>set pre. available q = []"
    and "available pl = p # rest"
  shows "p \<notin> set live \<and> pool_inv (p # live) (s\<lparr>pools := pre @ pl\<lparr>available := rest\<rparr> # post\<rparr>)"
proof -
  let ?s' = "s\<lparr>pools := pre @ pl\<lparr>available := rest\<rparr> # post\<rparr>"
  have pre: "concat (map available pre) = []" using assms(3) by (induction pre) auto
  have q: "queued s = p # queued ?s'" by (simp add: queued_def assms(2,4) pre)
  have m: "map mesh (pools ?s') = map mesh (pools s)" by (simp add: assms(2))
  from assms(1) have i: "0 < particlesPerGeometry s" "distinct (map mesh (pools s))"
    "\<forall>pl\<in>set (pools s). mesh pl < nextId s" "distinct (queued s)"
    "set (queued s) \<inter> set live = {}" "\<forall>p\<in>set (queued s) \<union> set live. fst p < nextId s"
    by (simp_all add: pool_inv_def)
  have a: "p \<notin> set live" using i(5) q by auto
  have "0 < particlesPerGeometry ?s'" using i(1) by simp
  moreover have "distinct (map mesh (pools ?s'))" using i(2) m by simp
  moreover have "\<forall>pl\<in>set (pools ?s'). mesh pl < nextId ?s'"
    using i(3) assms(2) by auto
  moreover have "distinct (queued ?s')" using i(4) q by simp
  moreover have "set (queued ?s') \<inter> set (p # live) = {}" using i(4,5) q by auto
  moreover have "\<forall>x\<in>set (queued ?s') \<union> set (p # live). fst x < nextId ?s'"
    using i(6) q by auto
  ultimately have "pool_inv (p # live) ?s'" unfolding pool_inv_def by blast
  with a show ?thesis by simp
qed

lemma pool_inv_free:
  assumes "pool_inv live s" and "p \<in> set live"
  shows "\<exists>s'. free p s = Inr s' \<and> pool_inv (removeAll p live) s'"
proof -
  define s' where "s' = s\<lparr>position := (position s)(p := offPos s),
                 pools := map (push_available (fst p) p) (pools s),
                 disposed := map (push_available (fst p) p) (disposed s)\<rparr>"
  have f: "free p s = Inr s'" by (simp add: free_def freePoolParticle_def s'_def)
  from assms(1) have i: "0 < particlesPerGeometry s" "distinct (map mesh (pools s))"
    "\<forall>pl\<in>set (pools s). mesh pl < nextId s" "distinct (queued s)"
    "set (queued s) \<inter> set live = {}" "\<forall>p\<in>set (queued s) \<union> set live. fst p < nextId s"
    by (simp_all add: pool_inv_def)
  have pn: "p \<notin> set (concat (map available (pools s)))"
    using i(5) assms(2) by (auto simp: queued_def)
  have d: "distinct (concat (map available (pools s)))" using i(4) by (simp add: queued_def)
  have ps: "pools s' = map (push_available (fst p) p) (pools s)" by (simp add: s'_def)
  have sub: "set (queued s') \<subseteq> insert p (set (queued s))"
    unfolding queued_def ps by (rule push_available_set)
  have m: "map mesh (pools s') = map mesh (pools s)"
    unfolding ps by (rule push_available_mesh)
  have ms: "mesh ` set (pools s') = mesh ` set (pools s)"
    using m by (metis list.set_map)
  have "0 < particlesPerGeometry s'" using i(1) by (simp add: s'_def)
  moreover have "distinct (map mesh (pools s'))" using i(2) m by simp
  moreover have "\<forall>pl\<in>set (pools s'). mesh pl < nextId s'"
  proof
    fix pl assume "pl \<in> set (pools s')"
    then have "mesh pl \<in> mesh ` set (pools s)" using ms by blast
    then show "mesh pl < nextId s'" using i(3) by (auto simp: s'_def)
  qed
  moreover have "distinct (queued s')"
    unfolding queued_def ps using i(2) d pn by (rule push_available_distinct)
  moreover have "set (queued s') \<inter> set (removeAll p live) = {}"
    using sub i(5) by auto
  moreover have "\<forall>x\<in>set (queued s') \<union> set (removeAll p live). fst x < nextId s'"
  proof
    fix x assume "x \<in> set (queued s') \<union> set (removeAll p live)"
    with sub assms(2) have "x \<in> set (queued s) \<union> set live" by auto
    with i(6) show "fst x < nextId s'" by (simp add: s'_def)
  qed
  ultimately have "pool_inv (removeAll p live) s'" unfolding pool_inv_def by blast
  with f show ?thesis by blast
qed

lemma queued_take: "set (concat (map available (take n pls))) \<subseteq> set (concat (map available pls))"
  by (metis append_take_drop_id concat_append map_append set_append Un_upper1)

lemma distinct_queued_take:
  "distinct (concat (map available pls)) \<Longrightarrow> distinct (concat (map available (take n pls)))"
  by (metis append_take_drop_id concat_append map_append distinct_append)

lemma cleanUp_pools:
  "pools (cleanUp s) = pools s \<or>
   pools (cleanUp s) = take (firstIdlePoolIndex (pools s) + 1) (pools s)"
proof (cases "1 < length (pools s) - firstIdlePoolIndex (pools s)")
  case True
  then show ?thesis by (simp add: cleanUp_removes)
next
  case False
  then have "cleanUp s = s" by (intro cleanUp_keeps) simp
  then show ?thesis by simp
qed

lemma cleanUp_same:
  "particlesPerGeometry (cleanUp s) = particlesPerGeometry s" "nextId (cleanUp s) = nextId s"
  by (simp_all add: cleanUp_def Let_def split: prod.splits)

lemma pool_inv_take:
  assumes "pool_inv live s"
    and "pools s' = pools s \<or> pools s' = take n (pools s)"
    and "particlesPerGeometry s' = particlesPerGeometry s" and "nextId s' = nextId s"
  shows "pool_inv live s'"
proof -
  from assms(1) have i: "0 < particlesPerGeometry s" "distinct (map mesh (pools s))"
    "\<forall>pl\<in>set (pools s). mesh pl < nextId s" "distinct (queued s)"
    "set (queued s) \<inter> set live = {}" "\<forall>p\<in>set (queued s) \<union> set live. fst p < nextId s"
    by (simp_all add: pool_inv_def)
  have t: "pools s' = take (length (pools s)) (pools s) \<or> pools s' = take n (pools s)"
    using assms(2) by simp
  then obtain k where k: "pools s' = take k (pools s)" by blast
  have sub: "set (queued s') \<subseteq> set (queued s)"
    unfolding queued_def k by (rule queued_take)
  have "0 < particlesPerGeometry s'" using i(1) assms(3) by simp
  moreover have "distinct (map mesh (pools s'))"
    using i(2) by (simp add: k take_map [symmetric])
  moreover have "\<forall>pl\<in>set (pools s'). mesh pl < nextId s'"
    using i(3) assms(4) by (auto simp: k dest: in_set_takeD)
  moreover have "distinct (queued s')"
    using i(4) unfolding queued_def k by (rule distinct_queued_take)
  moreover have "set (queued s') \<inter> set live = {}" using sub i(5) by blast
  moreover have "\<forall>x\<in>set (queued s') \<union> set live. fst x < nextId s'"
    using sub i(6) assms(4) by auto
  ultimately show ?thesis unfolding pool_inv_def by blast
qed

lemma pool_inv_cong:
  assumes "pool_inv live s"
    and "map available (pools s') = map available (pools s)"
    and "map mesh (pools s') = map mesh (pools s)"
    and "particlesPerGeometry s' = particlesPerGeometry s" and "nextId s' = nextId s"
  shows "pool_inv live s'"
proof -
  have q: "queued s' = queued s" by (simp add: queued_def assms(2))
  have "mesh ` set (pools s') = mesh ` set (pools s)"
    using assms(3) by (metis list.set_map)
  then have "(\<forall>pl\<in>set (pools s'). mesh pl < nextId s) = (\<forall>pl\<in>set (pools s). mesh pl < nextId s)"
    by (metis (no_types, lifting) image_iff)
  with assms show ?thesis by (simp add: pool_inv_def q)
qed

lemma pool_inv_mark_pools: "pool_inv live s \<Longrightarrow> pool_inv live (mark_pools s)"
  by (erule pool_inv_cong) (simp_all add: mark_pools_def comp_def)

lemma pool_inv_cleanUp:
  assumes "pool_inv live s"
  shows "pool_inv live (cleanUp s)"
  using assms cleanUp_pools cleanUp_same by (rule pool_inv_take)

lemma pool_inv_update: "pool_inv live s \<Longrightarrow> pool_inv live (update now now' s)"
proof -
  assume a: "pool_inv live s"
  have c: "pool_inv live (cleanUp (mark_pools s))"
    using a by (intro pool_inv_cleanUp pool_inv_mark_pools)
  have "pool_inv live ((cleanUp (mark_pools s))\<lparr>lastCleanup := now'\<rparr>)"
    by (rule pool_inv_cong [OF c]) simp_all
  with a show ?thesis by (simp add: update_def Let_def pool_inv_mark_pools)
qed

lemma pool_inv_increasePool: "pool_inv live s \<Longrightarrow> pool_inv live (increasePool r a s)"
  by (erule pool_inv_cong) (simp_all add: increasePool_def Let_def)

lemma pool_inv_decreasePool: "pool_inv live s \<Longrightarrow> pool_inv live (decreasePool r a s)"
  by (erule pool_inv_cong) (simp_all add: decreasePool_def Let_def)

lemma pool_inv_create_times: "pool_inv live s \<Longrightarrow> pool_inv live (create_times n s)"
  by (induction n arbitrary: s) (simp_all add: pool_inv_createGeometry)

lemma pool_inv_constructor: "pool_inv [] (DynamicParticlePool now opts)"
proof -
  have "0 < nat_or_default (opt_particlesPerGeometry opts) 1500"
    by (simp add: nat_or_default_def split: option.splits)
  then show ?thesis
    unfolding DynamicParticlePool_def Let_def
    by (intro pool_inv_create_times) (simp add: pool_inv_def queued_def)
qed

subsection \<open>Sequences of calls\<close>

lemma getOrCreateParticle_returns:
  assumes "0 < particlesPerGeometry s"
  shows "\<exists>r s'. getOrCreateParticle s = Some (r, s') \<and>
           particlesPerGeometry s' = particlesPerGeometry s"
proof -
  from getOrCreateParticle_result [OF assms]
  consider "getOrCreateParticle s = Some (None, s)"
    | s1 pls p where "s1 = s \<or> s1 = createGeometry s"
        "getOrCreateParticle s = Some (Some p, s1\<lparr>pools := pls\<rparr>)"
    by blast
  then show ?thesis
  proof cases
    case 1
    then show ?thesis by simp
  next
    case 2
    from 2(1) have "particlesPerGeometry (s1\<lparr>pools := pls\<rparr>) = particlesPerGeometry s"
      by (auto simp: createGeometry_fields)
    with 2(2) show ?thesis by simp
  qed
qed

lemma update_particlesPerGeometry:
  "particlesPerGeometry (update now now' s) = particlesPerGeometry s"
  by (simp add: update_def Let_def cleanUp_same mark_pools_def)

lemma run_returns:
  "0 < particlesPerGeometry s \<Longrightarrow> \<exists>es s'. run cs s = Some (es, s')"
proof (induction cs arbitrary: s)
  case Nil
  then show ?case by simp
next
  case (Cons c cs)
  show ?case
  proof (cases c)
    case GetParticle
    from getOrCreateParticle_returns [OF Cons.prems]
    obtain r s1 where g: "getOrCreateParticle s = Some (r, s1)"
      and p: "particlesPerGeometry s1 = particlesPerGeometry s" by blast
    from Cons.IH [of s1] p Cons.prems obtain es s' where "run cs s1 = Some (es, s')" by auto
    with g GetParticle show ?thesis by (simp add: getParticle_def)
  next
    case (Free p)
    obtain s1 where f: "free p s = Inr s1" and p: "particlesPerGeometry s1 = particlesPerGeometry s"
      by (simp add: free_def freePoolParticle_def)
    from Cons.IH [of s1] p Cons.prems obtain es s' where "run cs s1 = Some (es, s')" by auto
    with f Free show ?thesis by simp
  next
    case (Update now now')
    from Cons.IH [of "update now now' s"] Cons.prems Update show ?thesis
      by (simp add: update_particlesPerGeometry)
  next
    case (IncreasePool r a)
    from Cons.IH [of "increasePool r a s"] Cons.prems IncreasePool show ?thesis
      by (simp add: increasePool_def Let_def)
  next
    case (DecreasePool r a)
    from Cons.IH [of "decreasePool r a s"] Cons.prems DecreasePool show ?thesis
      by (simp add: decreasePool_def Let_def)
  qed
qed

lemma run_unique_live:
  "pool_inv live s \<Longrightarrow> run cs s = Some (es, s') \<Longrightarrow> frees_in_use live es \<Longrightarrow>
   unique_live live es"
proof (induction cs arbitrary: s live es)
  case Nil
  then show ?case by simp
next
  case (Cons c cs)
  show ?case
  proof (cases c)
    case GetParticle
    from Cons.prems(2) GetParticle obtain r s1 es1 where
      g: "getOrCreateParticle s = Some (r, s1)" and r: "run cs s1 = Some (es1, s')"
      and es: "es = Got r # es1"
      by (auto simp: getParticle_def split: option.splits)
    from Cons.prems(1) have ppg: "0 < particlesPerGeometry s" by (simp add: pool_inv_def)
    from getOrCreateParticle_result [OF ppg]
    consider "getOrCreateParticle s = Some (None, s)"
      | s0 pre pl post p rest where "s0 = s \<or> s0 = createGeometry s"
          "pools s0 = pre @ pl # post" "\<forall>q\<in>set pre. available q = []"
          "available pl = p # rest"
          "getOrCreateParticle s = Some (Some p, s0\<lparr>pools := pre @ pl\<lparr>available := rest\<rparr> # post\<rparr>)"
      by blast
    then show ?thesis
    proof cases
      case 1
      with g have "r = None" "s1 = s" by simp_all
      with Cons.IH [OF Cons.prems(1), of es1] r es Cons.prems(3) show ?thesis by simp
    next
      case 2
      from 2(1) Cons.prems(1) have i0: "pool_inv live s0"
        by (auto intro: pool_inv_createGeometry)
      from pool_inv_served [OF i0 2(2,3,4)]
      have pn: "p \<notin> set live"
        and i1: "pool_inv (p # live) (s0\<lparr>pools := pre @ pl\<lparr>available := rest\<rparr> # post\<rparr>)"
        by simp_all
      from g 2(5) have e: "r = Some p" "s1 = s0\<lparr>pools := pre @ pl\<lparr>available := rest\<rparr> # post\<rparr>"
        by simp_all
      from Cons.prems(3) es e have "frees_in_use (p # live) es1" by simp
      from Cons.IH [OF i1 r [unfolded e(2)] this] pn es e show ?thesis by simp
    qed
  next
    case (Free p)
    from Cons.prems(2) Free obtain s1 es1 where
      f: "free p s = Inr s1" and r: "run cs s1 = Some (es1, s')" and es: "es = Freed p # es1"
      by (auto split: sum.splits option.splits)
    from Cons.prems(3) es have pl: "p \<in> set live" and fr: "frees_in_use (removeAll p live) es1"
      by simp_all
    from pool_inv_free [OF Cons.prems(1) pl] f have "pool_inv (removeAll p live) s1" by auto
    from Cons.IH [OF this r fr] es show ?thesis by simp
  next
    case (Update now now')
    with Cons.prems(2) have "run cs (update now now' s) = Some (es, s')" by simp
    from Cons.IH [OF pool_inv_update [OF Cons.prems(1)] this Cons.prems(3)] show ?thesis .
  next
    case (IncreasePool r a)
    with Cons.prems(2) have "run cs (increasePool r a s) = Some (es, s')" by simp
    from Cons.IH [OF pool_inv_increasePool [OF Cons.prems(1)] this Cons.prems(3)] show ?thesis .
  next
    case (DecreasePool r a)
    with Cons.prems(2) have "run cs (decreasePool r a s) = Some (es, s')" by simp
    from Cons.IH [OF pool_inv_decreasePool [OF Cons.prems(1)] this Cons.prems(3)] show ?thesis .
  qed
qed

text \<open>
  C2 (as the code has it). Every sequence of calls of \<open>getParticle\<close>, \<open>free\<close>, \<open>update\<close>,
  \<open>increasePool\<close> and \<open>decreasePool\<close> on a pool made by the constructor returns. If every
  \<open>free\<close> in it is made on a particle in use (returned by \<open>getParticle\<close> and not freed since),
  then no \<open>getParticle\<close> returns a particle that is in use: a particle is returned again only
  after it was freed.
\<close>

theorem live_particles_unique:
  "(\<exists>es. results cs (DynamicParticlePool now opts) = Some es) \<and>
   (\<forall>es. results cs (DynamicParticlePool now opts) = Some es \<longrightarrow>
      frees_in_use [] es \<longrightarrow> unique_live [] es)"
proof (intro conjI allI impI)
  have "0 < particlesPerGeometry (DynamicParticlePool now opts)"
    using pool_inv_constructor [of now opts] by (simp add: pool_inv_def)
  from run_returns [OF this, of cs]
  show "\<exists>es. results cs (DynamicParticlePool now opts) = Some es"
    by (auto simp: results_def)
next
  fix es
  assume r: "results cs (DynamicParticlePool now opts) = Some es" and f: "frees_in_use [] es"
  from r obtain s' where "run cs (DynamicParticlePool now opts) = Some (es, s')"
    by (auto simp: results_def)
  from run_unique_live [OF pool_inv_constructor this f] show "unique_live [] es" .
qed

theorem live_particles_unique_witness:
  "results [GetParticle, GetParticle, Free (0, 0), GetParticle, Update 5 5, GetParticle]
     (DynamicParticlePool 0 (test_options 10 0 2))
     = Some [Got (Some (0, 0)), Got (Some (0, 1)), Freed (0, 0), Got (Some (0, 0)),
             Got (Some (1, 0))] \<and>
   frees_in_use [] [Got (Some (0, 0)), Got (Some (0, 1)), Freed (0, 0), Got (Some (0, 0)),
             Got (Some (1, 0))] \<and>
   unique_live [] [Got (Some (0, 0)), Got (Some (0, 1)), Freed (0, 0), Got (Some (0, 0)),
             Got (Some (1, 0))]"
proof -
  let ?cs = "[GetParticle, GetParticle, Free (0, 0), GetParticle, Update 5 5, GetParticle]"
  let ?es = "[Got (Some (0, 0)), Got (Some (0, 1)), Freed (0, 0), Got (Some (0, 0)),
             Got (Some (1, 0))]"
  have r: "results ?cs (DynamicParticlePool 0 (test_options 10 0 2)) = Some ?es"
    by (simp add: run_defs construct_defs update_eval)
  have f: "frees_in_use [] ?es" by simp
  note t = live_particles_unique [of ?cs 0 "test_options 10 0 2"]
  note u = t [THEN conjunct2, rule_format, OF r f]
  show ?thesis
    apply (intro conjI)
    apply (rule r)
    apply (rule f)
    apply (rule u)
    done
qed

text \<open>
  For every sequence the claim fails: the pool does not record which particles are in use, so
  a particle freed twice waits twice and two calls of \<open>getParticle\<close> in a row return it.
\<close>

theorem live_particles_unique_counterexample:
  "results [GetParticle, Free (0, 0), Free (0, 0), GetParticle, GetParticle]
     (DynamicParticlePool 0 (test_options 10 0 1))
     = Some [Got (Some (0, 0)), Freed (0, 0), Freed (0, 0), Got (Some (0, 0)), Got (Some (0, 0))] \<and>
   \<not> unique_live [] [Got (Some (0, 0)), Freed (0, 0), Freed (0, 0), Got (Some (0, 0)),
                      Got (Some (0, 0))]"
  by (simp add: run_defs construct_defs)

end
